theory Spec2Isabelle
  imports Main "HOL-Library.Word" "HOL-Library.Signed_Division"
begin

unbundle bit_operations_syntax

section \<open>Configuration and option clamping (uws.go, Config, cval, Dial, Handle)\<close>

text \<open>
  The numeric options of \<^verbatim>\<open>Config\<close> are Go \<^verbatim>\<open>int\<close>, \<^verbatim>\<open>int64\<close> and
  \<^verbatim>\<open>time.Duration\<close> values (64 bits on the platforms where the package compiles,
  since \<^verbatim>\<open>int(30*time.Second)\<close> must fit an \<^verbatim>\<open>int\<close>).  The clamping code only
  compares and copies the caller's values and multiplies values that were clamped
  to at most thirty seconds before, so no operation can wrap around and the
  options are modelled as \<open>int\<close>.  The handler fields are modelled by whether they
  are set (non-nil).
\<close>

record Config =
  Protocols :: "string list"
  NeedProtocol :: bool
  ReadSize :: int
  FragmentSize :: int
  MessageSize :: int
  ConnectTimeout :: int
  ProbeTimeout :: int
  InactiveTimeout :: int
  WriteTimeout :: int
  WriteBufferSize :: int
  ReadBufferSize :: int
  OpenHandler :: bool
  MessageHandler :: bool
  CloseHandler :: bool

text \<open>\<^verbatim>\<open>time.Second\<close>, in nanoseconds.\<close>

definition Second :: int where
  "Second = 1000000000"

text \<open>\<^verbatim>\<open>func cval(value, fallback, min, max int) int\<close>\<close>

definition cval :: "int \<Rightarrow> int \<Rightarrow> int \<Rightarrow> int \<Rightarrow> int" where
  "cval v fallback lo hi =
     (let v1 = (if v = 0 then fallback else v);
          v2 = (if v1 < lo then lo else v1)
      in if v2 > hi then hi else v2)"

text \<open>
  The option assignments of \<^verbatim>\<open>Dial\<close> (lines 101 to 113).  The source assigns the
  fields one after the other; an assignment reads a field assigned before it only
  for \<^verbatim>\<open>InactiveTimeout\<close>, which reads the clamped \<^verbatim>\<open>ProbeTimeout\<close> (bound to
  \<open>probe\<close> below).  \<^verbatim>\<open>ConnectTimeout\<close> is computed from \<^verbatim>\<open>config.ProbeTimeout\<close>, as
  line 104 has it, before \<^verbatim>\<open>ProbeTimeout\<close> is reassigned on line 105.
\<close>

definition Dial_config :: "Config \<Rightarrow> Config" where
  "Dial_config c =
     (let probe = cval (ProbeTimeout c) (15 * Second) (1 * Second) (30 * Second)
      in c\<lparr>ReadSize := cval (ReadSize c) 4096 4096 262144,
            FragmentSize := cval (FragmentSize c) 16384 4096 1048576,
            MessageSize := cval (MessageSize c) 4194304 4096 67108864,
            ConnectTimeout := cval (ProbeTimeout c) (10 * Second) (1 * Second) (30 * Second),
            ProbeTimeout := probe,
            InactiveTimeout :=
              cval (InactiveTimeout c) (3 * probe) (probe + Second) (5 * probe),
            WriteTimeout := cval (WriteTimeout c) (10 * Second) (1 * Second) (30 * Second),
            ReadBufferSize :=
              (if ReadBufferSize c \<noteq> 0 then cval (ReadBufferSize c) 4096 4096 33554432
               else ReadBufferSize c),
            WriteBufferSize :=
              (if WriteBufferSize c \<noteq> 0 then cval (WriteBufferSize c) 4096 4096 33554432
               else WriteBufferSize c)\<rparr>)"

text \<open>
  The option assignments of \<^verbatim>\<open>Handle\<close> (lines 307 to 318): the same, but
  \<^verbatim>\<open>ConnectTimeout\<close> is not assigned and the fallback of \<^verbatim>\<open>ProbeTimeout\<close> is
  \<^verbatim>\<open>10*time.Second\<close>.
\<close>

definition Handle_config :: "Config \<Rightarrow> Config" where
  "Handle_config c =
     (let probe = cval (ProbeTimeout c) (10 * Second) (1 * Second) (30 * Second)
      in c\<lparr>ReadSize := cval (ReadSize c) 4096 4096 262144,
            FragmentSize := cval (FragmentSize c) 16384 4096 1048576,
            MessageSize := cval (MessageSize c) 4194304 4096 67108864,
            ProbeTimeout := probe,
            InactiveTimeout :=
              cval (InactiveTimeout c) (3 * probe) (probe + Second) (5 * probe),
            WriteTimeout := cval (WriteTimeout c) (10 * Second) (1 * Second) (30 * Second),
            ReadBufferSize :=
              (if ReadBufferSize c \<noteq> 0 then cval (ReadBufferSize c) 4096 4096 33554432
               else ReadBufferSize c),
            WriteBufferSize :=
              (if WriteBufferSize c \<noteq> 0 then cval (WriteBufferSize c) 4096 4096 33554432
               else WriteBufferSize c)\<rparr>)"

text \<open>\<^verbatim>\<open>&Config{}\<close>: the configuration both entry points build for a nil argument.\<close>

definition zero_Config :: Config where
  "zero_Config =
     \<lparr>Protocols = [], NeedProtocol = False, ReadSize = 0, FragmentSize = 0,
      MessageSize = 0, ConnectTimeout = 0, ProbeTimeout = 0, InactiveTimeout = 0,
      WriteTimeout = 0, WriteBufferSize = 0, ReadBufferSize = 0,
      OpenHandler = False, MessageHandler = False, CloseHandler = False\<rparr>"

text \<open>
  The rule of section 4.7 of the specification, in its words: substitute the default
  when the option is zero, then clamp to \<open>[min, max]\<close>.
\<close>

definition spec_clamp :: "int \<Rightarrow> int \<Rightarrow> int \<Rightarrow> int \<Rightarrow> int" where
  "spec_clamp v dflt lo hi = min hi (max lo (if v = 0 then dflt else v))"


section \<open>The masking primitive (uws.go, xor and rmask)\<close>

type_synonym byte = "8 word"

text \<open>
  \<^verbatim>\<open>const xorsize = int(unsafe.Sizeof(uintptr(0)))\<close>: eight bytes on the 64-bit
  platforms modelled here.
\<close>

definition xorsize :: nat where
  "xorsize = 8"

text \<open>
  \<^verbatim>\<open>*(*uintptr)(unsafe.Pointer(&bytes))\<close> reads a machine word from memory and the
  assignment through the same pointer writes it back.  Both are modelled in
  little-endian byte order (amd64, arm64): the byte at the lowest address is the
  least significant one.
\<close>

fun load_uintptr :: "byte list \<Rightarrow> 64 word" where
  "load_uintptr [] = 0"
| "load_uintptr (b # bs) = ucast b OR push_bit 8 (load_uintptr bs)"

fun store_uintptr :: "nat \<Rightarrow> 64 word \<Rightarrow> byte list" where
  "store_uintptr 0 w = []"
| "store_uintptr (Suc n) w = ucast w # store_uintptr n (drop_bit 8 w)"

text \<open>
  The loop \<^verbatim>\<open>for index := 0; index < offset; index += xorsize\<close>: the word at
  \<^verbatim>\<open>data[index : index+xorsize]\<close> is replaced by its exclusive or with \<^verbatim>\<open>xorer\<close>.
\<close>

function xor_words :: "64 word \<Rightarrow> byte list \<Rightarrow> nat \<Rightarrow> nat \<Rightarrow> byte list" where
  "xor_words xorer data index offset =
     (if index < offset
      then xor_words xorer
             (take index data @
              store_uintptr xorsize (load_uintptr (take xorsize (drop index data)) XOR xorer) @
              drop (index + xorsize) data)
             (index + xorsize) offset
      else data)"
  by pat_completeness auto
termination
  by (relation "measure (\<lambda>(xorer, data, index, offset). offset - index)")
    (auto simp: xorsize_def)

declare xor_words.simps [simp del]

text \<open>
  The loop \<^verbatim>\<open>for index := offset; index < length; index++\<close>.  Reading
  \<^verbatim>\<open>mask[(index-offset)%4]\<close> beyond the end of \<^verbatim>\<open>mask\<close> panics in Go: \<open>None\<close>.
\<close>

function xor_tail :: "byte list \<Rightarrow> byte list \<Rightarrow> nat \<Rightarrow> nat \<Rightarrow> byte list option" where
  "xor_tail msk data index offset =
     (if index < length data
      then (if (index - offset) mod 4 < length msk
            then xor_tail msk
                   (data[index := data ! index XOR msk ! ((index - offset) mod 4)])
                   (Suc index) offset
            else None)
      else Some data)"
  by pat_completeness auto
termination
  by (relation "measure (\<lambda>(msk, data, index, offset). length data - index)") auto

declare xor_tail.simps [simp del]

text \<open>
  \<^verbatim>\<open>func xor(mask []byte, data []byte)\<close>.  The slice \<^verbatim>\<open>data\<close> is updated in place; the
  model returns its new contents.  (The constant is named \<open>xor_slice\<close> because \<open>xor\<close> is the
  exclusive or of the library.)  Filling \<^verbatim>\<open>value\<close> reads \<^verbatim>\<open>mask[0]\<close> to \<^verbatim>\<open>mask[3]\<close>
  and panics on a shorter mask.
\<close>

definition xor_slice :: "byte list \<Rightarrow> byte list \<Rightarrow> byte list option" where
  "xor_slice msk data =
     (if length data \<ge> xorsize
      then (if length msk < 4 then None
            else xor_tail msk
                   (xor_words
                      (load_uintptr (map (\<lambda>index. msk ! (index mod 4)) [0..<xorsize]))
                      data 0 ((length data div xorsize) * xorsize))
                   ((length data div xorsize) * xorsize)
                   ((length data div xorsize) * xorsize))
      else xor_tail msk data 0 0)"

text \<open>
  The masking rule of section 4.1 of the specification, in its words:
  \<^verbatim>\<open>d[i] ^= m[i mod 4]\<close> at every index.
\<close>

definition mask_spec :: "byte list \<Rightarrow> byte list \<Rightarrow> byte list" where
  "mask_spec m d = map (\<lambda>i. d ! i XOR m ! (i mod 4)) [0..<length d]"

text \<open>
  \<^verbatim>\<open>func rmask() []byte\<close> fills a four-byte slice from \<^verbatim>\<open>math/rand\<close>.  The random
  source is a parameter of the model: the four bytes it delivers.
\<close>

type_synonym key = "byte \<times> byte \<times> byte \<times> byte"

fun rmask :: "key \<Rightarrow> byte list" where
  "rmask (k0, k1, k2, k3) = [k0, k1, k2, k3]"

section \<open>Sockets: send, Close and Write (uws.go, lines 351 to 447)\<close>

text \<open>
  A call either panics (a nil dereference, a division by zero, a slice or index out
  of range) or returns.
\<close>

datatype 'a outcome = Panic | Return 'a

text \<open>
  What a socket does to the world is recorded, in order, in a trace.  The two flag
  assignments of \<^verbatim>\<open>Close\<close> are recorded as well: \<open>SetClosing\<close> is
  \<^verbatim>\<open>s.closing = true\<close> and \<open>SetDisconnected\<close> is \<^verbatim>\<open>s.connected = false\<close>.
  \<open>WriteTo\<close> is one call of \<^verbatim>\<open>payload.WriteTo(s.conn)\<close> with the buffers handed to
  the stream and whether the call succeeded.  \<open>ReceiveStarted\<close> is \<^verbatim>\<open>go ws.receive(...)\<close>
  and \<open>OpenHandlerCall\<close> the call of \<^verbatim>\<open>config.OpenHandler\<close>; \<open>MessageHandlerCall\<close> is a
  call of \<^verbatim>\<open>config.MessageHandler\<close> with the opcode and the message.
\<close>

datatype event =
    SetClosing
  | CloseHandlerCall int
  | SetWriteDeadline int int
  | WriteTo "byte list list" bool
  | SetDisconnected
  | ConnClose
  | ReceiveStarted
  | OpenHandlerCall
  | SetReadDeadline int int
  | MessageHandlerCall byte "byte list"

text \<open>
  The world around a socket: the value of the coarse clock \<^verbatim>\<open>now\<close> at each load,
  whether each write to the stream succeeds, and the bytes \<^verbatim>\<open>math/rand\<close> delivers
  to each \<^verbatim>\<open>rmask\<close>.  Each is a function of the number of such observations the socket
  has made before (\<open>tick\<close>), so every behaviour of the world is covered.
\<close>

record Env =
  now_at :: "nat \<Rightarrow> int"
  write_ok :: "nat \<Rightarrow> bool"
  rand_at :: "nat \<Rightarrow> key"

record Socket =
  Path :: string
  Origin :: string
  Agent :: string
  Remote :: string
  Protocol :: string
  config :: "Config option"
  client :: bool
  connected :: bool
  closing :: bool
  slast :: int
  rlast :: int
  tick :: nat
  trace :: "event list"

text \<open>
  \<^verbatim>\<open>binary.BigEndian.PutUint16\<close> and \<^verbatim>\<open>PutUint64\<close> of a non-negative number (already
  reduced to sixteen bits where the source converts with \<^verbatim>\<open>uint16\<close>).
\<close>

definition be16 :: "nat \<Rightarrow> byte list" where
  "be16 n = [of_nat (n div 256), of_nat n]"

definition be64 :: "nat \<Rightarrow> byte list" where
  "be64 n = map (\<lambda>k. of_nat (n div 256 ^ k)) [7, 6, 5, 4, 3, 2, 1, 0]"

text \<open>
  The frame of \<^verbatim>\<open>Close\<close> (lines 409 to 421): the header \<^verbatim>\<open>FIN | CLOSE\<close>, the mask bit
  and the key for a client, and for a non-zero code the length 2 and the code in
  big-endian order, masked in place for a client.
\<close>

definition close_payload :: "bool \<Rightarrow> key \<Rightarrow> int \<Rightarrow> byte list list outcome" where
  "close_payload is_client k code =
     (let b1 = (if is_client then 0x80 else 0) OR (if code \<noteq> 0 then 2 else 0);
          head = [[0x80 OR 8, b1]] @ (if is_client then [rmask k] else [])
      in if code \<noteq> 0
         then (if is_client
               then (case xor_slice (rmask k) (be16 (nat (code mod 65536))) of
                       None \<Rightarrow> Panic
                     | Some masked \<Rightarrow> Return (head @ [masked]))
               else Return (head @ [be16 (nat (code mod 65536))]))
         else Return head)"

text \<open>
  The first half of \<^verbatim>\<open>send\<close> (lines 435 to 439): load the clock and, when a second
  has passed since \<^verbatim>\<open>slast\<close>, refresh the write deadline, which reads
  \<^verbatim>\<open>s.config.WriteTimeout\<close> and so panics on a nil configuration.
\<close>

definition send_deadline :: "Env \<Rightarrow> Socket \<Rightarrow> Socket outcome" where
  "send_deadline env s =
     (let lnow = now_at env (tick s);
          s1 = s\<lparr>tick := tick s + 1\<rparr>
      in if lnow - slast s1 \<ge> Second
         then (case config s1 of
                 None \<Rightarrow> Panic
               | Some c \<Rightarrow>
                   Return (s1\<lparr>slast := lnow,
                               trace := trace s1 @ [SetWriteDeadline lnow (WriteTimeout c)]\<rparr>))
         else Return s1)"

text \<open>The deadline refresh leaves the flags and the configuration alone.\<close>

lemma send_deadline_flags:
  "send_deadline env s = Return s1 \<Longrightarrow>
     closing s1 = closing s \<and> connected s1 = connected s \<and> client s1 = client s \<and>
     config s1 = config s"
  by (auto simp: send_deadline_def Let_def split: if_splits option.splits)

text \<open>
  \<^verbatim>\<open>func (s *Socket) Close(code int)\<close> and \<^verbatim>\<open>func (s *Socket) send(payload)\<close>, which
  call each other: \<^verbatim>\<open>send\<close> closes the socket with code 0 when the write fails.
  \<^verbatim>\<open>send\<close> returns whether it returned an error.  The mutexes are not modelled: the
  calls of this model run one after the other.
\<close>

function Close :: "Env \<Rightarrow> int \<Rightarrow> Socket \<Rightarrow> Socket outcome"
  and send :: "Env \<Rightarrow> byte list list \<Rightarrow> Socket \<Rightarrow> (bool \<times> Socket) outcome" where
  "Close env code s =
     (if \<not> closing s \<and> connected s
      then (case close_payload (client s) (rand_at env (tick s)) code of
              Panic \<Rightarrow> Panic
            | Return payload \<Rightarrow>
                (case send env payload
                        (s\<lparr>closing := True,
                           tick := (if client s then tick s + 1 else tick s),
                           trace := trace s @ [SetClosing] @
                             (case config s of
                                None \<Rightarrow> []
                              | Some c \<Rightarrow> if CloseHandler c then [CloseHandlerCall code] else [])\<rparr>) of
                   Panic \<Rightarrow> Panic
                 | Return (err, s') \<Rightarrow>
                     Return (s'\<lparr>connected := False,
                                trace := trace s' @ [SetDisconnected, ConnClose]\<rparr>)))
      else Return s)"
| "send env payload s =
     (if \<not> connected s then Return (True, s)
      else (case send_deadline env s of
              Panic \<Rightarrow> Panic
            | Return s1 \<Rightarrow>
                (if write_ok env (tick s1)
                 then Return (False, s1\<lparr>tick := tick s1 + 1,
                                        trace := trace s1 @ [WriteTo payload True]\<rparr>)
                 else (case Close env 0 (s1\<lparr>tick := tick s1 + 1,
                                            trace := trace s1 @ [WriteTo payload False]\<rparr>) of
                         Panic \<Rightarrow> Panic
                       | Return s2 \<Rightarrow> Return (True, s2)))))"
  by pat_completeness auto

termination
  apply (relation "measure (\<lambda>x. case x of
            Inl (env, code, s) \<Rightarrow> (if closing s then 0 else 2)
          | Inr (env, payload, s) \<Rightarrow> (if closing s then 1 else 3))")
    apply (auto dest: send_deadline_flags)
  done

declare Close.simps [simp del]
declare send.simps [simp del]

text \<open>A sequence of calls of \<^verbatim>\<open>Close\<close>, one after the other, with the given codes.\<close>

fun Close_calls :: "Env \<Rightarrow> int list \<Rightarrow> Socket \<Rightarrow> Socket outcome" where
  "Close_calls env [] s = Return s"
| "Close_calls env (code # codes) s =
     (case Close env code s of
        Panic \<Rightarrow> Panic
      | Return s' \<Rightarrow> Close_calls env codes s')"

text \<open>
  The header of a data frame (lines 370 to 385): \<^verbatim>\<open>fin | mode\<close>, then the length
  in its 7, 16 or 64 bit encoding, with the mask bit for a client.
\<close>

definition frame_header :: "byte \<Rightarrow> byte \<Rightarrow> nat \<Rightarrow> bool \<Rightarrow> byte list list" where
  "frame_header fin mode sz is_client =
     (let m = (if is_client then 0x80 else 0)
      in if sz < 126 then [[fin OR mode, of_nat sz OR m]]
         else if sz < 65536 then [[fin OR mode, 126 OR m], be16 sz]
         else [[fin OR mode, 127 OR m], be64 sz])"

text \<open>\<^verbatim>\<open>data[offset:offset+size]\<close> replaced, in place, by bytes of the same number.\<close>

definition splice :: "byte list \<Rightarrow> nat \<Rightarrow> nat \<Rightarrow> byte list \<Rightarrow> byte list" where
  "splice data offset sz bytes = take offset data @ bytes @ drop (offset + sz) data"

text \<open>
  One iteration of the loop of \<^verbatim>\<open>Write\<close> (lines 363 to 392) for fragment number
  \<open>frame\<close> of \<open>frames\<close>, with \<open>fs\<close> the \<^verbatim>\<open>FragmentSize\<close>.  It returns the error of
  \<^verbatim>\<open>send\<close>, the contents of the caller's slice and the socket.  The slice expression
  \<^verbatim>\<open>data[offset:offset+size]\<close> panics out of range (the capacity of \<^verbatim>\<open>data\<close> is taken
  to be its length).  A client masks the fragment in place before \<^verbatim>\<open>send\<close> and again
  after it.
\<close>

definition Write_frame ::
  "Env \<Rightarrow> int \<Rightarrow> byte \<Rightarrow> byte list \<Rightarrow> int \<Rightarrow> int \<Rightarrow> Socket \<Rightarrow>
     (bool \<times> byte list \<times> Socket) outcome" where
  "Write_frame env fs mode data frame frames s =
     (let offset = (frame - 1) * fs;
          fin = (if frame = frames then 0x80 else 0);
          sz = (if frame = frames then int (length data) - offset else fs);
          mode' = (if frame > 1 then 0 else mode)
      in if offset < 0 \<or> sz < 0 \<or> offset + sz > int (length data) then Panic
         else if client s
         then (case xor_slice (rmask (rand_at env (tick s)))
                      (take (nat sz) (drop (nat offset) data)) of
                 None \<Rightarrow> Panic
               | Some masked \<Rightarrow>
                   (case send env
                           (frame_header fin mode' (nat sz) True @
                            [rmask (rand_at env (tick s)), masked])
                           (s\<lparr>tick := tick s + 1\<rparr>) of
                      Panic \<Rightarrow> Panic
                    | Return (err, s') \<Rightarrow>
                        (case xor_slice (rmask (rand_at env (tick s)))
                                (take (nat sz)
                                   (drop (nat offset)
                                      (splice data (nat offset) (nat sz) masked))) of
                           None \<Rightarrow> Panic
                         | Some restored \<Rightarrow>
                             Return (err,
                               splice (splice data (nat offset) (nat sz) masked)
                                 (nat offset) (nat sz) restored,
                               s'))))
         else (case send env
                      (frame_header fin mode' (nat sz) False @
                       [take (nat sz) (drop (nat offset) data)]) s of
                 Panic \<Rightarrow> Panic
               | Return (err, s') \<Rightarrow> Return (err, data, s')))"

text \<open>
  The loop \<^verbatim>\<open>for frame := 1; frame <= frames; frame++\<close> with its early return on an
  error of \<^verbatim>\<open>send\<close>; \<^verbatim>\<open>mode\<close> stays 0 once a first frame was built.
\<close>

function Write_loop ::
  "Env \<Rightarrow> int \<Rightarrow> byte \<Rightarrow> byte list \<Rightarrow> int \<Rightarrow> int \<Rightarrow> Socket \<Rightarrow>
     (bool \<times> byte list \<times> Socket) outcome" where
  "Write_loop env fs mode data frame frames s =
     (if frame \<le> frames
      then (case Write_frame env fs mode data frame frames s of
              Panic \<Rightarrow> Panic
            | Return (err, data', s') \<Rightarrow>
                if err then Return (True, data', s')
                else Write_loop env fs (if frame > 1 then 0 else mode) data'
                       (frame + 1) frames s')
      else Return (False, data, s))"
  by pat_completeness auto
termination
  by (relation "measure (\<lambda>(env, fs, mode, data, frame, frames, s). nat (frames + 1 - frame))")
    auto

declare Write_loop.simps [simp del]

text \<open>
  \<^verbatim>\<open>func (s *Socket) Write(mode byte, data []byte) (err error)\<close>.  The division by
  \<^verbatim>\<open>s.config.FragmentSize\<close> truncates towards zero and panics on zero.
\<close>

definition Write ::
  "Env \<Rightarrow> byte \<Rightarrow> byte list \<Rightarrow> Socket \<Rightarrow> (bool \<times> byte list \<times> Socket) outcome" where
  "Write env mode data s =
     (if (mode = 1 \<or> mode = 2) \<and> length data > 0
      then (case config s of
              None \<Rightarrow> Panic
            | Some c \<Rightarrow>
                if FragmentSize c = 0 then Panic
                else Write_loop env (FragmentSize c) mode data 1
                       (int (length data) sdiv FragmentSize c +
                        (if int (length data) smod FragmentSize c \<noteq> 0 then 1 else 0))
                       s)
      else Return (False, data, s))"

text \<open>The buffers handed to the stream, in order, by the writes of a trace.\<close>

fun written :: "event list \<Rightarrow> byte list list list" where
  "written [] = []"
| "written (WriteTo payload ok # es) = payload # written es"
| "written (e # es) = written es"

text \<open>
  The buffers that reached the stream: those of the writes of a trace that succeeded.
\<close>

fun delivered :: "event list \<Rightarrow> byte list list list" where
  "delivered [] = []"
| "delivered (WriteTo payload True # es) = payload # delivered es"
| "delivered (e # es) = delivered es"

text \<open>The codes \<^verbatim>\<open>CloseHandler\<close> was called with, in order, in a trace.\<close>

fun handler_calls :: "event list \<Rightarrow> int list" where
  "handler_calls [] = []"
| "handler_calls (CloseHandlerCall code # es) = code # handler_calls es"
| "handler_calls (e # es) = handler_calls es"

text \<open>
  The CLOSE frame of a code, written out: what \<open>close_payload\<close> returns, given that
  masking with a four-byte key cannot panic.
\<close>

definition close_frame :: "bool \<Rightarrow> key \<Rightarrow> int \<Rightarrow> byte list list" where
  "close_frame is_client k code =
     [[0x88, (if is_client then 0x80 else 0) OR (if code \<noteq> 0 then 2 else 0)]] @
     (if is_client then [rmask k] else []) @
     (if code \<noteq> 0
      then [if is_client then mask_spec (rmask k) (be16 (nat (code mod 65536)))
            else be16 (nat (code mod 65536))]
      else [])"

text \<open>
  A world and two sockets to run the model on: the clock stands at 0, every write
  succeeds and every key is 1, 2, 3, 4; the sockets are as \<^verbatim>\<open>Handle\<close> and \<^verbatim>\<open>Dial\<close>
  create them, with a \<^verbatim>\<open>CloseHandler\<close> set.
\<close>

definition calm_env :: Env where
  "calm_env = \<lparr>now_at = (\<lambda>n. 0), write_ok = (\<lambda>n. True), rand_at = (\<lambda>n. (1, 2, 3, 4))\<rparr>"

definition server_socket :: Socket where
  "server_socket =
     \<lparr>Path = ''/'', Origin = [], Agent = [], Remote = [], Protocol = [],
      config = Some ((Handle_config zero_Config)\<lparr>CloseHandler := True\<rparr>),
      client = False, connected = True, closing = False, slast = 0, rlast = 0, tick = 0,
      trace = []\<rparr>"

definition client_socket :: Socket where
  "client_socket =
     \<lparr>Path = ''/'', Origin = [], Agent = [], Remote = [], Protocol = [],
      config = Some ((Dial_config zero_Config)\<lparr>CloseHandler := True\<rparr>),
      client = True, connected = True, closing = False, slast = 0, rlast = 0, tick = 0,
      trace = []\<rparr>"

text \<open>
  The buffers of one data frame as \<^verbatim>\<open>Write\<close> hands them to \<^verbatim>\<open>send\<close> (lines 370 to
  388): the header, then for a client the key and the masked fragment, for a server
  the fragment.
\<close>

definition fragment_payload ::
  "bool \<Rightarrow> key \<Rightarrow> byte \<Rightarrow> byte \<Rightarrow> byte list \<Rightarrow> byte list list" where
  "fragment_payload is_client k fin opcode bytes =
     frame_header fin opcode (length bytes) is_client @
     (if is_client then [rmask k, mask_spec (rmask k) bytes] else [bytes])"

text \<open>
  Section 4.6 of the specification, in its words: \<^verbatim>\<open>frames = ceil(len / FragmentSize)\<close>;
  fragment \<open>i\<close> (counted from 0) carries the bytes from \<open>i * FragmentSize\<close> on, at most
  \<^verbatim>\<open>FragmentSize\<close> of them, the original opcode if it is the first and 0 otherwise,
  and FIN only if it is the last.
\<close>

definition frames_needed :: "nat \<Rightarrow> nat \<Rightarrow> nat" where
  "frames_needed len fs = (len + fs - 1) div fs"

definition chunk :: "nat \<Rightarrow> byte list \<Rightarrow> nat \<Rightarrow> byte list" where
  "chunk fs data i = take fs (drop (i * fs) data)"

definition expected_fragment ::
  "bool \<Rightarrow> key \<Rightarrow> nat \<Rightarrow> byte \<Rightarrow> byte list \<Rightarrow> nat \<Rightarrow> byte list list" where
  "expected_fragment is_client k fs mode data i =
     fragment_payload is_client k
       (if Suc i = frames_needed (length data) fs then 0x80 else 0)
       (if i = 0 then mode else 0)
       (chunk fs data i)"

text \<open>
  Scenario 2 of the specification: a socket whose \<^verbatim>\<open>FragmentSize\<close> is 8 and the twenty
  bytes \<^verbatim>\<open>0x00..0x13\<close>; and a world in which every write to the stream fails.
\<close>

definition scenario_socket :: "bool \<Rightarrow> Socket" where
  "scenario_socket is_client =
     \<lparr>Path = ''/'', Origin = [], Agent = [], Remote = [], Protocol = [],
      config = Some ((Dial_config zero_Config)\<lparr>FragmentSize := 8\<rparr>),
      client = is_client, connected = True, closing = False, slast = 0, rlast = 0, tick = 0,
      trace = []\<rparr>"

definition scenario_data :: "byte list" where
  "scenario_data = [0, 1, 2, 3, 4, 5, 6, 7, 8, 9, 10, 11, 12, 13, 14, 15, 16, 17, 18, 19]"

definition broken_env :: Env where
  "broken_env = \<lparr>now_at = (\<lambda>n. 0), write_ok = (\<lambda>n. False), rand_at = (\<lambda>n. (1, 2, 3, 4))\<rparr>"

section \<open>The server handshake (uws.go, Handle)\<close>

text \<open>
  \<^verbatim>\<open>strings.ToLower\<close> on the ASCII letters (bytes outside ASCII are left as they are)
  and \<^verbatim>\<open>strings.Contains\<close>.
\<close>

definition lower_char :: "char \<Rightarrow> char" where
  "lower_char ch =
     (if 65 \<le> (of_char ch :: nat) \<and> (of_char ch :: nat) \<le> 90
      then char_of ((of_char ch :: nat) + 32) else ch)"

definition ToLower :: "string \<Rightarrow> string" where
  "ToLower str = map lower_char str"

fun Contains :: "string \<Rightarrow> string \<Rightarrow> bool" where
  "Contains [] sub = (sub = [])"
| "Contains (ch # str) sub = (take (length sub) (ch # str) = sub \<or> Contains str sub)"

text \<open>
  \<^verbatim>\<open>rcache.Get("[, ]+")\<close> returns the compiled expression, and \<^verbatim>\<open>splitter.Split(s, n)\<close>
  is \<^verbatim>\<open>regexp.Split\<close> of the Go library, written out for this expression: the matches
  are the maximal runs of commas and spaces; \<^verbatim>\<open>n = 0\<close> gives no substring, the empty
  string gives one empty substring, and for \<^verbatim>\<open>n > 0\<close> at most \<^verbatim>\<open>n\<close> substrings are
  returned, the last one being the unsplit remainder.  \<open>split_runs k str cur\<close> splits
  \<open>str\<close> at its first \<open>k\<close> runs, \<open>cur\<close> being the substring collected so far.
\<close>

definition is_sep :: "char \<Rightarrow> bool" where
  "is_sep ch = (ch = CHR '','' \<or> ch = CHR '' '')"

function split_runs :: "nat \<Rightarrow> string \<Rightarrow> string \<Rightarrow> string list" where
  "split_runs k [] cur = [cur]"
| "split_runs k (ch # str) cur =
     (if is_sep ch \<and> k > 0
      then cur # split_runs (k - 1) (dropWhile is_sep str) []
      else split_runs k str (cur @ [ch]))"
  by pat_completeness auto
termination
  by (relation "measure (\<lambda>(k, str, cur). length str)")
    (auto simp: length_dropWhile_le less_Suc_eq_le)

definition Split :: "string \<Rightarrow> nat \<Rightarrow> string list" where
  "Split str n = (if n = 0 then [] else if str = [] then [[]] else split_runs (n - 1) str [])"

text \<open>
  The request as \<^verbatim>\<open>Handle\<close> reads it, and the response writer: the status codes
  written, the headers set, whether the writer is an \<^verbatim>\<open>http.Hijacker\<close>, whether
  \<^verbatim>\<open>Hijack\<close> succeeds and the remote address of the connection it returns.
  \<^verbatim>\<open>Header.Get\<close> gives the empty string for a header that is absent.
\<close>

record Request =
  Method :: string
  Header :: "string \<Rightarrow> string"
  URLPath :: string

record ResponseWriter =
  statuses :: "nat list"
  headers :: "string \<rightharpoonup> string"
  hijacker :: bool
  hijack_ok :: bool
  remote_addr :: string

definition WriteHeader :: "nat \<Rightarrow> ResponseWriter \<Rightarrow> ResponseWriter" where
  "WriteHeader code w = w\<lparr>statuses := statuses w @ [code]\<rparr>"

definition SetHeader :: "string \<Rightarrow> string \<Rightarrow> ResponseWriter \<Rightarrow> ResponseWriter" where
  "SetHeader name v w = w\<lparr>headers := (headers w)(name \<mapsto> v)\<rparr>"

text \<open>
  The loop of lines 284 to 288 over the client's values: \<^verbatim>\<open>protocol\<close> is overwritten
  by every value that is in the server's list.
\<close>

fun pick_protocol :: "string list \<Rightarrow> string list \<Rightarrow> string \<Rightarrow> string" where
  "pick_protocol sprotocols [] protocol = protocol"
| "pick_protocol sprotocols (v # cprotocols) protocol =
     pick_protocol sprotocols cprotocols (if v \<in> set sprotocols then v else protocol)"

text \<open>
  Lines 275 to 289: the negotiated sub-protocol for a non-empty server list.
\<close>

definition negotiate :: "string list \<Rightarrow> string \<Rightarrow> string" where
  "negotiate sprotocols hdr =
     (let cprotocols = Split hdr 10
      in if length cprotocols > 0 then pick_protocol sprotocols cprotocols [] else [])"

text \<open>
  \<^verbatim>\<open>func Handle(response, request, config) (handled bool, ws *Socket)\<close>.  The
  configuration is a pointer: \<open>None\<close> is nil, and reading a field of it panics.  The
  accept key \<^verbatim>\<open>base64(sha1(ckey + WEBSOCKET_UUID))\<close> is computed by the parameter
  \<open>accept\<close>.  The model returns \<open>handled\<close>, the socket (if any) and the response
  writer after the call.
\<close>

definition Handle ::
  "(string \<Rightarrow> string) \<Rightarrow> ResponseWriter \<Rightarrow> Request \<Rightarrow> Config option \<Rightarrow>
     (bool \<times> Socket option \<times> ResponseWriter) outcome" where
  "Handle accept response request cfg =
     (if Contains (ToLower (Header request ''Connection'')) ''upgrade'' \<and>
         ToLower (Header request ''Upgrade'') = ''websocket''
      then
        if Method request \<noteq> ''GET''
        then Return (True, None, WriteHeader 405 response)
        else if Header request ''Sec-WebSocket-Version'' \<noteq> ''13'' \<or>
                Header request ''Sec-WebSocket-Key'' = []
        then Return (True, None,
               WriteHeader 400 (SetHeader ''Sec-WebSocket-Version'' ''13'' response))
        else if \<not> hijacker response
        then Return (True, None, WriteHeader 500 response)
        else
          (case cfg of
             None \<Rightarrow> Panic
           | Some c \<Rightarrow>
               let protocol =
                     (if length (Protocols c) > 0
                      then negotiate (Protocols c) (Header request ''Sec-WebSocket-Protocol'')
                      else []);
                   response1 =
                     (if length (Protocols c) > 0 \<and> protocol \<noteq> []
                      then SetHeader ''Sec-WebSocket-Protocol'' protocol response
                      else response)
               in if length (Protocols c) > 0 \<and> protocol = [] \<and> NeedProtocol c
                  then Return (True, None, WriteHeader 400 response1)
                  else
                    let response2 =
                          WriteHeader 101
                            (SetHeader ''Sec-WebSocket-Accept''
                               (accept (Header request ''Sec-WebSocket-Key''))
                               (SetHeader ''Upgrade'' ''websocket''
                                  (SetHeader ''Connection'' ''Upgrade'' response1)))
                    in if hijack_ok response2
                       then Return (True,
                              Some \<lparr>Path = URLPath request,
                                    Origin = (if ToLower (Header request ''Origin'') = ''null''
                                              then [] else Header request ''Origin''),
                                    Agent = Header request ''User-Agent'',
                                    Remote = remote_addr response2,
                                    Protocol = protocol,
                                    config = Some (Handle_config c),
                                    client = False, connected = True, closing = False,
                                    slast = 0, rlast = 0, tick = 0,
                                    trace = [ReceiveStarted] @
                                      (if OpenHandler c then [OpenHandlerCall] else [])\<rparr>,
                              response2)
                       else Return (True, None, response2))
      else Return (False, None, response))"

text \<open>
  An upgrade request as a browser sends it, offering the given sub-protocols, and a
  response writer that can be hijacked.
\<close>

definition upgrade_request :: "string \<Rightarrow> Request" where
  "upgrade_request offered =
     \<lparr>Method = ''GET'',
      Header = (\<lambda>name.
        if name = ''Connection'' then ''keep-alive, Upgrade''
        else if name = ''Upgrade'' then ''WebSocket''
        else if name = ''Sec-WebSocket-Version'' then ''13''
        else if name = ''Sec-WebSocket-Key'' then ''dGhlIHNhbXBsZSBub25jZQ==''
        else if name = ''Sec-WebSocket-Protocol'' then offered
        else []),
      URLPath = ''/chat''\<rparr>"

definition fresh_writer :: ResponseWriter where
  "fresh_writer = \<lparr>statuses = [], headers = Map.empty, hijacker = True, hijack_ok = True,
     remote_addr = ''10.0.0.1:4242''\<rparr>"


section \<open>The receive loop (uws.go, receive)\<close>

text \<open>
  The local variables of \<^verbatim>\<open>receive\<close>.  \<^verbatim>\<open>size\<close> and \<^verbatim>\<open>mask\<close> are named \<open>fsize\<close> and
  \<open>fmask\<close> here, and \<^verbatim>\<open>data\<close>, \<^verbatim>\<open>control\<close> and \<^verbatim>\<open>code\<close> are named \<open>rdata\<close>, \<open>rcontrol\<close> and
  \<open>rcode\<close>.  A nil slice is \<open>None\<close>.  The offsets and sizes are Go \<^verbatim>\<open>int\<close>s and
  are modelled as \<open>int\<close>; the two places where the source can leave the range of an
  \<^verbatim>\<open>int\<close>, the conversion of a 64-bit length and the sum \<^verbatim>\<open>dsize += size\<close>, wrap
  around as in Go.
\<close>

record Recv =
  rdata :: "byte list option"
  rcontrol :: "byte list option"
  fin :: byte
  opcode :: byte
  fsize :: int
  fmask :: "byte list"
  seen :: int
  rcode :: int
  dmode :: byte
  dsize :: int
  doffset :: int
  dlast :: bool
  buffer :: "byte list"
  roffset :: int
  woffset :: int

text \<open>A 64-bit pattern read as a Go \<^verbatim>\<open>int\<close>, and the wrap-around of a sum of two.\<close>

definition int64 :: "int \<Rightarrow> int" where
  "int64 v = (v + 2 ^ 63) mod 2 ^ 64 - 2 ^ 63"

text \<open>\<^verbatim>\<open>binary.BigEndian.Uint16\<close> and \<^verbatim>\<open>Uint64\<close> of the first bytes of a slice.\<close>

definition be_uint :: "byte list \<Rightarrow> int" where
  "be_uint bytes = fold (\<lambda>b acc. acc * 256 + uint b) bytes 0"

text \<open>\<^verbatim>\<open>copy(dst, src)\<close>: the first \<open>min (len dst) (len src)\<close> bytes of \<open>dst\<close> are replaced.\<close>

definition copy_into :: "byte list \<Rightarrow> byte list \<Rightarrow> byte list" where
  "copy_into dst src = take (length dst) src @ drop (length src) dst"

text \<open>
  The protocol check of lines 487 to 489 on the first two bytes of a frame, for the
  role of the socket.
\<close>

definition violation :: "bool \<Rightarrow> byte \<Rightarrow> byte \<Rightarrow> bool" where
  "violation is_client b0 b1 =
     (let f = drop_bit 7 b0; op = b0 AND 0x0f
      in (is_client \<and> b1 AND 0x80 \<noteq> 0) \<or> (\<not> is_client \<and> b1 AND 0x80 = 0) \<or>
         (f = 0 \<and> op \<ge> 8 \<and> op \<le> 10) \<or>
         (op \<noteq> 0 \<and> op \<noteq> 1 \<and> op \<noteq> 2 \<and> (op < 8 \<or> op > 10)))"

text \<open>The size check of line 529.\<close>

definition oversized :: "int \<Rightarrow> byte \<Rightarrow> byte \<Rightarrow> int \<Rightarrow> bool" where
  "oversized message_size f op sz =
     ((op \<le> 2 \<and> sz = 0) \<or> (op > 2 \<and> sz > 125) \<or> (f = 1 \<and> sz > message_size))"

text \<open>
  Lines 503 to 528: the payload length in its 7, 16 or 64 bit encoding, the key of a
  server-side frame and the new read offset; or \<open>NeedMore\<close> when the window does not
  hold the extended length and the key yet.  \<open>smask\<close> is 4 for a server and 0 for a
  client.
\<close>

datatype latch = NeedMore | Latched int "byte list" int

definition latch_length :: "bool \<Rightarrow> Recv \<Rightarrow> latch" where
  "latch_length is_client st =
     (let smask = (if is_client then 0 else 4);
          avail = woffset st - roffset st;
          at = (\<lambda>k. drop (nat (roffset st + k)) (buffer st));
          key = (\<lambda>k. if is_client then fmask st else copy_into (fmask st) (at k))
      in if fsize st = 126
         then (if avail < 4 + smask then NeedMore
               else Latched (be_uint (take 2 (at 2))) (key 4) (roffset st + 4 + smask))
         else if fsize st = 127
         then (if avail < 10 + smask then NeedMore
               else Latched (int64 (be_uint (take 8 (at 2)))) (key 10) (roffset st + 10 + smask))
         else Latched (fsize st) (key 2) (roffset st + 2 + smask))"

text \<open>
  The first half of the body of the inner loop (lines 484 to 539), entered with no
  frame header latched (\<open>fsize < 0\<close>).  \<open>HClose\<close> is \<^verbatim>\<open>break close\<close>, \<open>HBreak\<close> is
  \<^verbatim>\<open>break\<close> out of the inner loop and \<open>HNext\<close> goes on to the second half.  All
  bytes read here lie in the window \<^verbatim>\<open>buffer[roffset:woffset]\<close>; indexing the buffer
  out of range panics, which is modelled for a window that is not inside the buffer.
  \<open>header_latch\<close> is lines 493 to 535, after the protocol check.
\<close>

datatype hresult = HNext Recv | HBreak Recv | HClose Recv | HPanic

definition header_latch :: "int \<Rightarrow> bool \<Rightarrow> Recv \<Rightarrow> hresult" where
  "header_latch message_size is_client st1 =
     (if \<not> is_client \<and> woffset st1 - roffset st1 < 2 + 4
      then HBreak (st1\<lparr>fsize := - 1\<rparr>)
      else
        let st2 = st1\<lparr>dmode := (if opcode st1 = 1 \<or> opcode st1 = 2
                                 then opcode st1 else dmode st1)\<rparr>;
            st3 = st2\<lparr>dlast := (if dmode st2 \<noteq> 0 \<and> fin st2 = 1
                                 then True else dlast st2)\<rparr>
        in (case latch_length is_client st3 of
              NeedMore \<Rightarrow> HBreak (st3\<lparr>fsize := - 1\<rparr>)
            | Latched sz key ro \<Rightarrow>
                if oversized message_size (fin st3) (opcode st3) sz
                then HClose (st3\<lparr>fsize := sz, fmask := key, roffset := ro,
                                rcode := 1009\<rparr>)
                else HNext (st3\<lparr>fsize := sz, fmask := key, roffset := ro,
                               dsize := (if dmode st3 \<noteq> 0
                                         then int64 (dsize st3 + sz)
                                         else dsize st3)\<rparr>)))"

definition header_part :: "int \<Rightarrow> bool \<Rightarrow> Recv \<Rightarrow> hresult" where
  "header_part message_size is_client st =
     (if fsize st < 0
      then
        if woffset st - roffset st \<ge> 2
        then
          if roffset st < 0 \<or> woffset st > int (length (buffer st)) then HPanic
          else
            let b0 = buffer st ! nat (roffset st);
                b1 = buffer st ! nat (roffset st + 1);
                st1 = st\<lparr>fin := drop_bit 7 b0, opcode := b0 AND 0x0f,
                        fsize := uint (b1 AND 0x7f)\<rparr>
            in if violation is_client b0 b1 then HClose (st1\<lparr>rcode := 1002\<rparr>)
               else header_latch message_size is_client st1
        else HBreak st
      else HNext st)"

text \<open>
  The second half of the body of the inner loop for a data frame (lines 542 to 574),
  with \<open>c\<close> the configuration of the socket.  \<^verbatim>\<open>bslab.Get\<close> is taken to return an
  empty slice of the capacity asked for (\<open>slice_of\<close> for a nil slice).  \<^verbatim>\<open>math.Min\<close> on
  the two converted integers is their minimum, the window being far below \<open>2^53\<close>
  bytes.  A slice expression out of range panics.  \<open>PClose\<close> is \<^verbatim>\<open>break close\<close>.
\<close>

datatype presult = PNext "Recv \<times> Socket" | PClose "Recv \<times> Socket" | PPanic

definition slice_of :: "byte list option \<Rightarrow> byte list" where
  "slice_of x = (case x of None \<Rightarrow> [] | Some d \<Rightarrow> d)"

text \<open>
  Line 556, \<^verbatim>\<open>xor(mask, data[doffset:dsize])\<close> on a server: the fragment that was just
  completed is unmasked in place; \<open>None\<close> is a panic.
\<close>

definition unmask_data :: "bool \<Rightarrow> Recv \<Rightarrow> byte list \<Rightarrow> byte list option" where
  "unmask_data is_client st1 d1 =
     (if is_client then Some d1
      else if doffset st1 < 0 \<or> dsize st1 < doffset st1 then None
      else map_option
             (splice d1 (nat (doffset st1)) (nat (dsize st1 - doffset st1)))
             (xor_slice (fmask st1)
                (take (nat (dsize st1 - doffset st1)) (drop (nat (doffset st1)) d1))))"

text \<open>Lines 555 to 573: a frame of the message is complete.\<close>

definition data_complete ::
  "Config \<Rightarrow> (byte list \<Rightarrow> bool) \<Rightarrow> Recv \<Rightarrow> byte list \<Rightarrow> Socket \<Rightarrow> presult" where
  "data_complete c utf8_valid st1 d1 s =
     (case unmask_data (client s) st1 d1 of
        None \<Rightarrow> PPanic
      | Some d2 \<Rightarrow>
          if dlast st1
          then
            if dmode st1 = 1 \<and> \<not> utf8_valid d2
            then PClose (st1\<lparr>rdata := Some d2, doffset := dsize st1, rcode := 1007\<rparr>, s)
            else PNext (st1\<lparr>rdata := None, doffset := 0, dmode := 0, dsize := 0,
                            dlast := False, fsize := - 1\<rparr>,
                        if MessageHandler c
                        then s\<lparr>trace := trace s @ [MessageHandlerCall (dmode st1) d2]\<rparr>
                        else s)
          else PNext (st1\<lparr>rdata := Some d2, doffset := dsize st1, fsize := - 1\<rparr>, s))"

definition data_part ::
  "Config \<Rightarrow> (byte list \<Rightarrow> bool) \<Rightarrow> Recv \<Rightarrow> Socket \<Rightarrow> presult" where
  "data_part c utf8_valid st s =
     (let d0 = slice_of (rdata st);
          mx = min (woffset st - roffset st) (fsize st)
      in if int (length d0) + mx > MessageSize c
         then PClose (st\<lparr>rdata := Some d0, rcode := 1009\<rparr>, s)
         else if roffset st < 0 \<or> mx < 0 \<or> roffset st + mx > int (length (buffer st))
         then PPanic
         else
           let d1 = d0 @ take (nat mx) (drop (nat (roffset st)) (buffer st));
               st1 = st\<lparr>rdata := Some d1, fsize := fsize st - mx,
                       roffset := roffset st + mx\<rparr>
           in if fsize st1 \<le> 0 \<and> int (length d1) \<ge> dsize st1
              then data_complete c utf8_valid st1 d1 s
              else PNext (st1, s))"

text \<open>
  The second half for a control frame (lines 576 to 607): CLOSE takes the code of the
  peer and leaves the loop, PING is answered by a PONG with the same payload (lines
  594 to 603, \<open>pong\<close>).
\<close>

definition pong :: "Env \<Rightarrow> Recv \<Rightarrow> byte list \<Rightarrow> Socket \<Rightarrow> presult" where
  "pong env st1 c2 s =
     (case send env
             ([[0x8A, of_nat (length c2) OR (if client s then 0x80 else 0)]] @
              (if client s
               then [rmask (rand_at env (tick s)),
                     mask_spec (rmask (rand_at env (tick s))) c2]
               else [c2]))
             (if client s then s\<lparr>tick := tick s + 1\<rparr> else s) of
        Panic \<Rightarrow> PPanic
      | Return (err, s') \<Rightarrow>
          if err
          then PClose (st1\<lparr>rcontrol :=
                             Some (if client s
                                   then mask_spec (rmask (rand_at env (tick s))) c2
                                   else c2)\<rparr>, s')
          else PNext (st1\<lparr>rcontrol := None, fsize := - 1\<rparr>, s'))"

definition control_complete :: "Env \<Rightarrow> Recv \<Rightarrow> byte list \<Rightarrow> Socket \<Rightarrow> presult" where
  "control_complete env st1 c1 s =
     (case (if client s then Some c1 else xor_slice (fmask st1) c1) of
        None \<Rightarrow> PPanic
      | Some c2 \<Rightarrow>
          if opcode st1 = 8
          then PClose (st1\<lparr>rcontrol := Some c2,
                           rcode := (if length c2 \<ge> 2 then be_uint (take 2 c2)
                                     else rcode st1)\<rparr>, s)
          else if opcode st1 = 9 then pong env st1 c2 s
          else PNext (st1\<lparr>rcontrol := None, fsize := - 1\<rparr>, s))"

definition control_part :: "Env \<Rightarrow> Recv \<Rightarrow> Socket \<Rightarrow> presult" where
  "control_part env st s =
     (let c0 = slice_of (rcontrol st);
          mx = min (woffset st - roffset st) (fsize st)
      in if roffset st < 0 \<or> mx < 0 \<or> roffset st + mx > int (length (buffer st))
         then PPanic
         else
           let c1 = c0 @ take (nat mx) (drop (nat (roffset st)) (buffer st));
               st1 = st\<lparr>rcontrol := Some c1, fsize := fsize st - mx,
                       roffset := roffset st + mx\<rparr>
           in if fsize st1 \<le> 0 then control_complete env st1 c1 s else PNext (st1, s))"

definition payload_part ::
  "Config \<Rightarrow> (byte list \<Rightarrow> bool) \<Rightarrow> Env \<Rightarrow> Recv \<Rightarrow> Socket \<Rightarrow> presult" where
  "payload_part c utf8_valid env st s =
     (if fsize st \<ge> 0
      then (if dmode st \<noteq> 0 then data_part c utf8_valid st s else control_part env st s)
      else PNext (st, s))"

text \<open>The length of the reassembly buffer \<^verbatim>\<open>data\<close>.\<close>

definition assembled :: "Recv \<Rightarrow> int" where
  "assembled st = int (length (slice_of (rdata st)))"

text \<open>
  One pass through the body of the inner loop (lines 483 to 615): the two halves and
  the test \<^verbatim>\<open>roffset >= woffset\<close> that ends the loop when the window is used up.
\<close>

datatype step =
    Continue "Recv \<times> Socket"
  | BreakInner "Recv \<times> Socket"
  | BreakClose "Recv \<times> Socket"
  | StepPanic
  | OutOfFuel

definition frame_step ::
  "Config \<Rightarrow> (byte list \<Rightarrow> bool) \<Rightarrow> Env \<Rightarrow> Recv \<Rightarrow> Socket \<Rightarrow> step" where
  "frame_step c utf8_valid env st s =
     (case header_part (MessageSize c) (client s) st of
        HPanic \<Rightarrow> StepPanic
      | HClose st' \<Rightarrow> BreakClose (st', s)
      | HBreak st' \<Rightarrow> BreakInner (st', s)
      | HNext st1 \<Rightarrow>
          (case payload_part c utf8_valid env st1 s of
             PPanic \<Rightarrow> StepPanic
           | PClose r \<Rightarrow> BreakClose r
           | PNext (st2, s2) \<Rightarrow>
               if roffset st2 \<ge> woffset st2
               then BreakInner (st2\<lparr>roffset := 0, woffset := 0\<rparr>, s2)
               else Continue (st2, s2)))"

text \<open>
  The inner loop \<^verbatim>\<open>for { ... }\<close>.  It is run with fuel: \<open>OutOfFuel\<close> stands for a loop
  that has not ended after that many passes.
\<close>

fun inner_loop ::
  "nat \<Rightarrow> Config \<Rightarrow> (byte list \<Rightarrow> bool) \<Rightarrow> Env \<Rightarrow> Recv \<Rightarrow> Socket \<Rightarrow> step" where
  "inner_loop 0 c utf8_valid env st s = OutOfFuel"
| "inner_loop (Suc n) c utf8_valid env st s =
     (case frame_step c utf8_valid env st s of
        Continue (st', s') \<Rightarrow> inner_loop n c utf8_valid env st' s'
      | r \<Rightarrow> r)"

text \<open>
  What one \<^verbatim>\<open>Read\<close> of the stream (or of the pre-buffered reader) returns: the bytes
  read (those that fit the buffer are taken) and the error, nil, a timeout or
  another error.
\<close>

datatype read_err = NoErr | Timeout | OtherErr

text \<open>
  One pass through the body of the outer loop (lines 462 to 637) for one read:
  compaction of the buffer, refresh of the read deadline, the read, the inner loop
  over the new bytes, the PING on a timeout and the inactivity test.  \<open>Again\<close> goes
  round the loop, \<open>Leave\<close> is \<^verbatim>\<open>break close\<close>.
\<close>

datatype iter = Again "Recv \<times> Socket" | Leave "Recv \<times> Socket" | IterPanic | IterFuel

definition compact :: "Recv \<Rightarrow> Recv option" where
  "compact st =
     (if int (length (buffer st)) - roffset st < 14
      then (if roffset st < 0 \<or> woffset st < roffset st \<or>
               woffset st > int (length (buffer st))
            then None
            else Some (st\<lparr>buffer := copy_into (buffer st)
                                      (take (nat (woffset st - roffset st))
                                         (drop (nat (roffset st)) (buffer st))),
                           woffset := woffset st - roffset st, roffset := 0\<rparr>))
      else Some st)"

definition read_deadline :: "Config \<Rightarrow> Env \<Rightarrow> Socket \<Rightarrow> Socket" where
  "read_deadline c env s =
     (let lnow = now_at env (tick s);
          s1 = s\<lparr>tick := tick s + 1\<rparr>
      in if lnow - rlast s1 \<ge> Second
         then s1\<lparr>rlast := lnow, trace := trace s1 @ [SetReadDeadline lnow (ProbeTimeout c)]\<rparr>
         else s1)"

definition after_read ::
  "Config \<Rightarrow> Env \<Rightarrow> nat \<Rightarrow> read_err \<Rightarrow> Recv \<Rightarrow> Socket \<Rightarrow> iter" where
  "after_read c env nread err st s =
     (case (if err = Timeout
            then (case send env
                         ([[0x89, (if client s then 0x80 else 0)]] @
                          (if client s then [rmask (rand_at env (tick s))] else []))
                         (if client s then s\<lparr>tick := tick s + 1\<rparr> else s) of
                    Panic \<Rightarrow> IterPanic
                  | Return (failed, s') \<Rightarrow> if failed then Leave (st, s') else Again (st, s'))
            else if err = OtherErr then Leave (st, s)
            else if nread = 0 then Leave (st, s)
            else Again (st, s)) of
        Again (st', s') \<Rightarrow>
          if now_at env (tick s') - seen st' \<ge> InactiveTimeout c
          then Leave (st', s'\<lparr>tick := tick s' + 1\<rparr>)
          else Again (st', s'\<lparr>tick := tick s' + 1\<rparr>)
      | r \<Rightarrow> r)"

definition receive_iter ::
  "nat \<Rightarrow> Config \<Rightarrow> (byte list \<Rightarrow> bool) \<Rightarrow> Env \<Rightarrow> byte list \<times> read_err \<Rightarrow>
     Recv \<Rightarrow> Socket \<Rightarrow> iter" where
  "receive_iter fuel c utf8_valid env ev st0 s0 =
     (case compact st0 of
        None \<Rightarrow> IterPanic
      | Some st \<Rightarrow>
          if woffset st < 0 \<or> woffset st > int (length (buffer st)) then IterPanic
          else
            let s = read_deadline c env s0;
                bytes = take (length (buffer st) - nat (woffset st)) (fst ev)
            in if length bytes > 0
               then
                 (case inner_loop fuel c utf8_valid env
                         (st\<lparr>seen := now_at env (tick s),
                             buffer := take (nat (woffset st)) (buffer st) @ bytes @
                                       drop (nat (woffset st) + length bytes) (buffer st),
                             woffset := woffset st + int (length bytes)\<rparr>)
                         (s\<lparr>tick := tick s + 1\<rparr>) of
                    BreakClose r \<Rightarrow> Leave r
                  | BreakInner (st', s') \<Rightarrow> after_read c env (length bytes) (snd ev) st' s'
                  | Continue r \<Rightarrow> IterFuel
                  | StepPanic \<Rightarrow> IterPanic
                  | OutOfFuel \<Rightarrow> IterFuel)
               else after_read c env 0 (snd ev) st s)"

text \<open>
  The outer loop over the reads of the stream, in order; when they are used up the
  stream has ended, and the next read returns no byte and an error.
\<close>

fun receive_loop ::
  "nat \<Rightarrow> Config \<Rightarrow> (byte list \<Rightarrow> bool) \<Rightarrow> Env \<Rightarrow> (byte list \<times> read_err) list \<Rightarrow>
     Recv \<Rightarrow> Socket \<Rightarrow> iter" where
  "receive_loop fuel c utf8_valid env [] st s =
     (case receive_iter fuel c utf8_valid env ([], OtherErr) st s of
        Again r \<Rightarrow> Leave r
      | r \<Rightarrow> r)"
| "receive_loop fuel c utf8_valid env (ev # evs) st s =
     (case receive_iter fuel c utf8_valid env ev st s of
        Again (st', s') \<Rightarrow> receive_loop fuel c utf8_valid env evs st' s'
      | r \<Rightarrow> r)"

text \<open>
  \<^verbatim>\<open>func (s *Socket) receive(buffered io.Reader)\<close>: the initial values of the locals
  (lines 453 to 459), the loop, and \<^verbatim>\<open>s.Close(code)\<close> on leaving it.
  \<^verbatim>\<open>bslab.Get(s.config.ReadSize, nil)\<close> is taken to return a slice whose capacity is
  the size asked for, so the read buffer holds \<^verbatim>\<open>ReadSize\<close> bytes.  Reading
  \<^verbatim>\<open>s.config.ReadSize\<close> panics on a nil configuration.  \<open>None\<close> stands for a run whose
  inner loop ran out of fuel.
\<close>

definition initial_Recv :: "Config \<Rightarrow> int \<Rightarrow> Recv" where
  "initial_Recv c lnow =
     \<lparr>rdata = None, rcontrol = None, fin = 0, opcode = 0, fsize = - 1,
      fmask = [0, 0, 0, 0], seen = lnow, rcode = 0, dmode = 0, dsize = 0, doffset = 0,
      dlast = False, buffer = replicate (nat (ReadSize c)) 0, roffset = 0, woffset = 0\<rparr>"

definition receive ::
  "nat \<Rightarrow> (byte list \<Rightarrow> bool) \<Rightarrow> Env \<Rightarrow> (byte list \<times> read_err) list \<Rightarrow> Socket \<Rightarrow>
     Socket outcome option" where
  "receive fuel utf8_valid env reads s =
     (case config s of
        None \<Rightarrow> Some Panic
      | Some c \<Rightarrow>
          (case receive_loop fuel c utf8_valid env reads
                  (initial_Recv c (now_at env (tick s))) (s\<lparr>tick := tick s + 1\<rparr>) of
             Leave (st, s') \<Rightarrow> Some (Close env (rcode st) s')
           | Again r \<Rightarrow> None
           | IterPanic \<Rightarrow> Some Panic
           | IterFuel \<Rightarrow> None))"

text \<open>
  Section 4.2 of the specification, in its words, on the first two bytes of a frame:
  a client receiving a masked frame, a server receiving an unmasked frame, a control
  frame (opcode 8, 9 or 10) with \<^verbatim>\<open>FIN = 0\<close>, or an opcode outside 0, 1, 2, 8, 9, 10.
\<close>

definition spec_violation :: "bool \<Rightarrow> byte \<Rightarrow> byte \<Rightarrow> bool" where
  "spec_violation is_client b0 b1 =
     ((is_client \<and> bit b1 7) \<or> (\<not> is_client \<and> \<not> bit b1 7) \<or>
      (b0 AND 0x0f \<in> {8, 9, 10} \<and> \<not> bit b0 7) \<or>
      b0 AND 0x0f \<notin> {0, 1, 2, 8, 9, 10})"


section \<open>Verification: option clamping\<close>

text \<open>On a non-empty range \<^verbatim>\<open>cval\<close> is the rule of the specification.\<close>

lemma cval_spec_clamp: "lo \<le> hi \<Longrightarrow> cval v d lo hi = spec_clamp v d lo hi"
  by (simp add: cval_def spec_clamp_def Let_def min_def max_def)

lemma cval_bounds: "lo \<le> hi \<Longrightarrow> lo \<le> cval v d lo hi \<and> cval v d lo hi \<le> hi"
  by (simp add: cval_def Let_def)


text \<open>
  What the two entry points do to each option, for every configuration.  All options
  but two follow the table of section 3 and the rule of section 4.7 (a buffer size of
  zero stays zero, as that section says; \<^verbatim>\<open>Handle\<close> does not assign
  \<^verbatim>\<open>ConnectTimeout\<close>).  The two others: \<^verbatim>\<open>Dial\<close> computes \<^verbatim>\<open>ConnectTimeout\<close> from the
  caller's \<^verbatim>\<open>ProbeTimeout\<close>, and the default of \<^verbatim>\<open>ProbeTimeout\<close> in \<^verbatim>\<open>Handle\<close> is ten
  seconds.
\<close>

lemma other_options_clamped:
  "ReadSize (Dial_config c) = spec_clamp (ReadSize c) 4096 4096 262144 \<and>
   ReadSize (Handle_config c) = spec_clamp (ReadSize c) 4096 4096 262144 \<and>
   FragmentSize (Dial_config c) = spec_clamp (FragmentSize c) 16384 4096 1048576 \<and>
   FragmentSize (Handle_config c) = spec_clamp (FragmentSize c) 16384 4096 1048576 \<and>
   MessageSize (Dial_config c) = spec_clamp (MessageSize c) 4194304 4096 67108864 \<and>
   MessageSize (Handle_config c) = spec_clamp (MessageSize c) 4194304 4096 67108864 \<and>
   WriteTimeout (Dial_config c) =
     spec_clamp (WriteTimeout c) (10 * Second) (1 * Second) (30 * Second) \<and>
   WriteTimeout (Handle_config c) =
     spec_clamp (WriteTimeout c) (10 * Second) (1 * Second) (30 * Second) \<and>
   ProbeTimeout (Dial_config c) =
     spec_clamp (ProbeTimeout c) (15 * Second) (1 * Second) (30 * Second) \<and>
   ProbeTimeout (Handle_config c) =
     spec_clamp (ProbeTimeout c) (10 * Second) (1 * Second) (30 * Second) \<and>
   ConnectTimeout (Dial_config c) =
     spec_clamp (ProbeTimeout c) (10 * Second) (1 * Second) (30 * Second) \<and>
   InactiveTimeout (Dial_config c) =
     spec_clamp (InactiveTimeout c) (3 * ProbeTimeout (Dial_config c))
       (ProbeTimeout (Dial_config c) + Second) (5 * ProbeTimeout (Dial_config c)) \<and>
   InactiveTimeout (Handle_config c) =
     spec_clamp (InactiveTimeout c) (3 * ProbeTimeout (Handle_config c))
       (ProbeTimeout (Handle_config c) + Second) (5 * ProbeTimeout (Handle_config c)) \<and>
   ReadBufferSize (Dial_config c) =
     (if ReadBufferSize c = 0 then 0
      else spec_clamp (ReadBufferSize c) 4096 4096 33554432) \<and>
   ReadBufferSize (Handle_config c) =
     (if ReadBufferSize c = 0 then 0
      else spec_clamp (ReadBufferSize c) 4096 4096 33554432) \<and>
   WriteBufferSize (Dial_config c) =
     (if WriteBufferSize c = 0 then 0
      else spec_clamp (WriteBufferSize c) 4096 4096 33554432) \<and>
   WriteBufferSize (Handle_config c) =
     (if WriteBufferSize c = 0 then 0
      else spec_clamp (WriteBufferSize c) 4096 4096 33554432) \<and>
   ConnectTimeout (Handle_config c) = ConnectTimeout c"
proof -
  have sec: "Second \<le> 30 * Second"
    by (simp add: Second_def)
  have inact: "p + Second \<le> 5 * p" if "Second \<le> p" for p
    using that by (simp add: Second_def)
  have lower: "Second \<le> spec_clamp v d Second (30 * Second)" for v d
    by (simp add: spec_clamp_def Second_def)
  have upper: "spec_clamp v d Second (30 * Second) \<le> 30 * Second" for v d
    by (simp add: spec_clamp_def)
  show ?thesis
    by (simp add: Dial_config_def Handle_config_def Let_def cval_spec_clamp sec
        inact lower upper)
qed


text \<open>
  Claim C1 (every zero option is replaced by the default of the table and then
  clamped; \<^verbatim>\<open>ConnectTimeout\<close> defaults to ten seconds and is clamped from its own value;
  \<^verbatim>\<open>ProbeTimeout\<close> defaults to fifteen seconds in both entry points), evaluated.  Given
  \<^verbatim>\<open>Config{ConnectTimeout: 5 * time.Second}\<close>, \<^verbatim>\<open>Dial\<close> sets \<^verbatim>\<open>ConnectTimeout\<close> to ten
  seconds, where the rule keeps five; with \<^verbatim>\<open>ProbeTimeout\<close> of twenty seconds besides
  it sets \<^verbatim>\<open>ConnectTimeout\<close> to twenty seconds: line 104 reads \<^verbatim>\<open>config.ProbeTimeout\<close>.
  Given \<^verbatim>\<open>Config{}\<close>, \<^verbatim>\<open>Handle\<close> sets \<^verbatim>\<open>ProbeTimeout\<close> to ten seconds, where the table
  and \<^verbatim>\<open>Dial\<close> have fifteen (line 310).
\<close>

theorem C1_defaults_not_as_tabled:
  "ConnectTimeout (Dial_config (zero_Config\<lparr>ConnectTimeout := 5 * Second\<rparr>)) = 10 * Second \<and>
   spec_clamp (5 * Second) (10 * Second) (1 * Second) (30 * Second) = 5 * Second \<and>
   ConnectTimeout
     (Dial_config (zero_Config\<lparr>ConnectTimeout := 5 * Second, ProbeTimeout := 20 * Second\<rparr>)) =
     20 * Second \<and>
   ProbeTimeout (Handle_config zero_Config) = 10 * Second \<and>
   spec_clamp (ProbeTimeout zero_Config) (15 * Second) (1 * Second) (30 * Second) = 15 * Second"
  by (simp add: Dial_config_def Handle_config_def zero_Config_def Let_def cval_def
      spec_clamp_def Second_def)


text \<open>
  Claim C9 (idempotence of the clamping of \<^verbatim>\<open>Dial\<close>), evaluated at the zero
  configuration: the first pass sets \<^verbatim>\<open>ConnectTimeout\<close> to ten seconds and
  \<^verbatim>\<open>ProbeTimeout\<close> to fifteen; the second pass computes \<^verbatim>\<open>ConnectTimeout\<close> from that
  \<^verbatim>\<open>ProbeTimeout\<close> and sets it to fifteen seconds.
\<close>

theorem C9_dial_clamping_twice_differs:
  "ConnectTimeout (Dial_config zero_Config) = 10 * Second \<and>
   ConnectTimeout (Dial_config (Dial_config zero_Config)) = 15 * Second \<and>
   Dial_config (Dial_config zero_Config) \<noteq> Dial_config zero_Config"
proof -
  have once: "Dial_config zero_Config =
      zero_Config\<lparr>ReadSize := 4096, FragmentSize := 16384, MessageSize := 4194304,
        ConnectTimeout := 10 * Second, ProbeTimeout := 15 * Second,
        InactiveTimeout := 45 * Second, WriteTimeout := 10 * Second\<rparr>"
    by (simp add: Dial_config_def zero_Config_def Let_def cval_def Second_def)
  have c1: "ConnectTimeout (Dial_config zero_Config) = 10 * Second"
    by (simp add: once)
  have c2: "ConnectTimeout (Dial_config (Dial_config zero_Config)) = 15 * Second"
    unfolding once by (simp add: Dial_config_def zero_Config_def Let_def cval_def Second_def)
  have "ConnectTimeout (Dial_config (Dial_config zero_Config)) \<noteq>
        ConnectTimeout (Dial_config zero_Config)"
    by (simp add: c1 c2 Second_def)
  then have "Dial_config (Dial_config zero_Config) \<noteq> Dial_config zero_Config"
    by metis
  with c1 c2 show ?thesis by simp
qed


text \<open>
  A second pass of \<^verbatim>\<open>Dial\<close>'s clamping changes nothing but \<^verbatim>\<open>ConnectTimeout\<close>, which
  it sets to the clamped \<^verbatim>\<open>ProbeTimeout\<close>.
\<close>

lemma cval_idem:
  "lo \<le> hi \<Longrightarrow> 0 < lo \<Longrightarrow> cval (cval v d lo hi) d' lo hi = cval v d lo hi"
  by (simp add: cval_def Let_def)

lemma Dial_config_twice:
  "Dial_config (Dial_config c) =
     (Dial_config c)\<lparr>ConnectTimeout := ProbeTimeout (Dial_config c)\<rparr>"
proof -
  have sec: "Second \<le> 30 * Second" "0 < Second"
    by (simp_all add: Second_def)
  have p: "Second \<le> cval v d Second (30 * Second)" for v d
    using cval_bounds [OF sec(1)] by blast
  have inact: "p + Second \<le> 5 * p" "0 < p + Second" if "Second \<le> p" for p
    using that by (simp_all add: Second_def)
  have nz: "cval v d 4096 hi = 0 \<longleftrightarrow> False" if "4096 \<le> hi" for v d hi
    using cval_bounds [OF that, of v d] by auto
  show ?thesis
    by (simp add: Dial_config_def Let_def cval_idem sec p inact nz)
qed



section \<open>Verification: the masking primitive\<close>

text \<open>
  A word read from eight bytes, combined with the key word and written back, is the
  byte-wise exclusive or of the eight bytes with the eight key bytes.
\<close>

lemma load_uintptr_xor:
  "length as = length vs \<Longrightarrow>
   load_uintptr (map2 (XOR) as vs) = load_uintptr as XOR load_uintptr vs"
proof (induction as vs rule: list_induct2)
  case Nil
  then show ?case by simp
next
  case (Cons a as v vs)
  have "(ucast (a XOR v) OR push_bit 8 (A XOR V) :: 64 word) =
        (ucast a OR push_bit 8 A) XOR (ucast v OR push_bit 8 V)" for A V :: "64 word"
    by (rule bit_word_eqI) (auto simp: bit_simps dest: bit_imp_le_length)
  with Cons show ?case by simp
qed

lemma bit_load_uintptr: "bit (load_uintptr bs) n \<Longrightarrow> n < 8 * length bs"
proof (induction bs arbitrary: n)
  case Nil
  then show ?case by simp
next
  case (Cons b bs)
  from Cons.prems have "n < 8 \<or> (8 \<le> n \<and> bit (load_uintptr bs) (n - 8))"
    by (auto simp: bit_simps dest: bit_imp_le_length)
  then show ?case
    using Cons.IH [of "n - 8"] by auto
qed

lemma store_load_uintptr:
  "length bs \<le> 8 \<Longrightarrow> store_uintptr (length bs) (load_uintptr bs) = bs"
proof (induction bs)
  case Nil
  then show ?case by simp
next
  case (Cons b bs)
  have low: "(ucast (ucast b OR push_bit 8 (load_uintptr bs) :: 64 word) :: byte) = b"
    by (rule bit_word_eqI) (auto simp: bit_simps)
  have high: "drop_bit 8 (ucast b OR push_bit 8 (load_uintptr bs) :: 64 word) = load_uintptr bs"
  proof (rule bit_word_eqI)
    fix n assume "n < LENGTH(64)"
    show "bit (drop_bit 8 (ucast b OR push_bit 8 (load_uintptr bs) :: 64 word)) n
          = bit (load_uintptr bs) n"
      using bit_load_uintptr [of bs n] Cons.prems
      by (auto simp: bit_simps dest: bit_imp_le_length)
  qed
  from Cons have IH: "store_uintptr (length bs) (load_uintptr bs) = bs"
    by simp
  have "store_uintptr (Suc (length bs)) (load_uintptr (b # bs)) =
        ucast (load_uintptr (b # bs)) #
        store_uintptr (length bs) (drop_bit 8 (load_uintptr (b # bs)))"
    by (simp only: store_uintptr.simps)
  also have "\<dots> = b # bs"
    by (simp only: load_uintptr.simps low high IH)
  finally show ?case
    by (simp only: length_Cons)
qed

lemma xor_block:
  assumes "length blk = 8" "length v = 8"
  shows "store_uintptr xorsize (load_uintptr blk XOR load_uintptr v) = map2 (XOR) blk v"
proof -
  have "store_uintptr (length (map2 (XOR) blk v)) (load_uintptr (map2 (XOR) blk v))
        = map2 (XOR) blk v"
    by (rule store_load_uintptr) (simp add: assms)
  then show ?thesis
    by (simp add: load_uintptr_xor assms xorsize_def)
qed

lemma xor_words_nth:
  assumes "length v = 8"
  shows "index \<le> offset \<Longrightarrow> offset \<le> length data \<Longrightarrow> 8 dvd (offset - index) \<Longrightarrow>
     length (xor_words (load_uintptr v) data index offset) = length data \<and>
     (\<forall>j < length data. xor_words (load_uintptr v) data index offset ! j =
        (if index \<le> j \<and> j < offset then data ! j XOR v ! ((j - index) mod 8) else data ! j))"
proof (induction "load_uintptr v" data index offset rule: xor_words.induct)
  case (1 data index offset)
  show ?case
  proof (cases "index < offset")
    case False
    then show ?thesis by (subst xor_words.simps, subst (2) xor_words.simps) auto
  next
    case True
    with "1.prems" have room: "index + 8 \<le> offset"
      by presburger
    define blk where "blk = take 8 (drop index data)"
    define data' where "data' = take index data @ map2 (XOR) blk v @ drop (index + 8) data"
    have lblk: "length blk = 8"
      using room "1.prems" by (simp add: blk_def)
    have step: "take index data @
        store_uintptr xorsize (load_uintptr (take xorsize (drop index data)) XOR load_uintptr v) @
        drop (index + xorsize) data = data'"
      using xor_block [OF lblk assms] by (simp add: data'_def blk_def xorsize_def)
    have len': "length data' = length data"
      using room "1.prems" lblk assms by (simp add: data'_def)
    have nth': "data' ! j = (if index \<le> j \<and> j < index + 8 then data ! j XOR v ! (j - index) else data ! j)"
      if "j < length data" for j
      using that room "1.prems" lblk assms
      by (auto simp: data'_def nth_append blk_def min_def)
    have dvd': "8 dvd (offset - (index + 8))"
      using "1.prems" room by presburger
    have IH: "length (xor_words (load_uintptr v) data' (index + 8) offset) = length data' \<and>
     (\<forall>j < length data'. xor_words (load_uintptr v) data' (index + 8) offset ! j =
        (if index + 8 \<le> j \<and> j < offset then data' ! j XOR v ! ((j - (index + 8)) mod 8) else data' ! j))"
      using "1.hyps" [OF True, unfolded step] room "1.prems" dvd' len'
      by (simp add: xorsize_def)
    have unf: "xor_words (load_uintptr v) data index offset =
               xor_words (load_uintptr v) data' (index + 8) offset"
      using True by (subst xor_words.simps) (simp add: step, simp add: xorsize_def)
    have modeq: "(j - (index + 8)) mod 8 = (j - index) mod 8" if "index + 8 \<le> j" for j
    proof -
      from that obtain k where "j = index + 8 + k"
        using le_iff_add by blast
      then show ?thesis by simp
    qed
    show ?thesis
      unfolding unf using IH len' nth' modeq room
      by (auto simp: not_le)
  qed
qed

lemma xor_tail_nth:
  "4 \<le> length msk \<Longrightarrow> offset \<le> index \<Longrightarrow>
   \<exists>data'. xor_tail msk data index offset = Some data' \<and> length data' = length data \<and>
     (\<forall>j < length data. data' ! j =
        (if index \<le> j then data ! j XOR msk ! ((j - offset) mod 4) else data ! j))"
proof (induction msk data index offset rule: xor_tail.induct)
  case (1 msk data index offset)
  show ?case
  proof (cases "index < length data")
    case False
    then show ?thesis by (subst xor_tail.simps) auto
  next
    case True
    have inr: "(index - offset) mod 4 < length msk"
      using "1.prems" by (meson less_le_trans mod_less_divisor zero_less_numeral)
    define d1 where "d1 = data[index := data ! index XOR msk ! ((index - offset) mod 4)]"
    from "1.IH" [OF True inr] "1.prems"
    obtain data' where r: "xor_tail msk d1 (Suc index) offset = Some data'"
      "length data' = length d1"
      "\<forall>j < length d1. data' ! j =
         (if Suc index \<le> j then d1 ! j XOR msk ! ((j - offset) mod 4) else d1 ! j)"
      unfolding d1_def by auto
    have unf: "xor_tail msk data index offset = xor_tail msk d1 (Suc index) offset"
      using True inr by (subst xor_tail.simps) (simp add: d1_def)
    have "data' ! j =
        (if index \<le> j then data ! j XOR msk ! ((j - offset) mod 4) else data ! j)"
      if j: "j < length data" for j
    proof -
      have dj: "data' ! j =
         (if Suc index \<le> j then d1 ! j XOR msk ! ((j - offset) mod 4) else d1 ! j)"
        using r(3) j by (simp add: d1_def)
      consider "j < index" | "j = index" | "index < j"
        by linarith
      then show ?thesis
      proof cases
        case 1
        then show ?thesis using dj j by (simp add: d1_def)
      next
        case 2
        then show ?thesis using dj j by (simp add: d1_def)
      next
        case 3
        then show ?thesis using dj j by (simp add: d1_def)
      qed
    qed
    with r show ?thesis
      unfolding unf by (simp add: d1_def)
  qed
qed

lemma xor_refines_mask_spec:
  assumes "length msk = 4"
  shows "xor_slice msk data = Some (mask_spec msk data)"
proof -
  define offset where "offset = (length data div 8) * 8"
  define v where "v = map (\<lambda>index. msk ! (index mod 4)) [0..<8]"
  have off: "offset \<le> length data" "8 dvd offset" "4 dvd offset"
    by (simp_all add: offset_def)
  have lv: "length v = 8" by (simp add: v_def)
  have vn: "v ! (j mod 8) = msk ! (j mod 4)" for j
    by (simp add: v_def mod_mod_cancel)
  define d1 where "d1 = (if 8 \<le> length data then xor_words (load_uintptr v) data 0 offset else data)"
  define o1 where "o1 = (if 8 \<le> length data then offset else 0)"
  have d1: "length d1 = length data"
    "\<forall>j < length data. d1 ! j = (if j < o1 then data ! j XOR msk ! (j mod 4) else data ! j)"
    using xor_words_nth [OF lv, of 0 offset data] off vn
    by (auto simp: d1_def o1_def)
  have o1: "4 dvd o1" "o1 \<le> length data"
    using off by (auto simp: o1_def)
  have unf: "xor_slice msk data = xor_tail msk d1 o1 o1"
    using assms by (simp add: xor_slice_def d1_def o1_def offset_def v_def xorsize_def)
  from xor_tail_nth [of msk o1 o1 d1] assms
  obtain data' where r: "xor_tail msk d1 o1 o1 = Some data'" "length data' = length d1"
    "\<forall>j < length d1. data' ! j =
        (if o1 \<le> j then d1 ! j XOR msk ! ((j - o1) mod 4) else d1 ! j)"
    by auto
  have shift: "(j - o1) mod 4 = j mod 4" if "o1 \<le> j" for j
  proof -
    from o1(1) obtain k where k: "o1 = 4 * k" ..
    from that obtain m where m: "j = o1 + m"
      using le_iff_add by blast
    show ?thesis by (simp add: m k)
  qed
  have "data' = mask_spec msk data"
  proof (rule nth_equalityI)
    show "length data' = length (mask_spec msk data)"
      using r(2) d1(1) by (simp add: mask_spec_def)
  next
    fix j assume "j < length data'"
    then have j: "j < length data" using r(2) d1(1) by simp
    show "data' ! j = mask_spec msk data ! j"
      using j r(3) d1 shift by (auto simp: mask_spec_def not_le)
  qed
  with unf r(1) show ?thesis by simp
qed


lemma length_mask_spec: "length (mask_spec m d) = length d"
  by (simp add: mask_spec_def)

lemma nth_mask_spec: "i < length d \<Longrightarrow> mask_spec m d ! i = d ! i XOR m ! (i mod 4)"
  by (simp add: mask_spec_def)

lemma mask_spec_involution: "mask_spec m (mask_spec m d) = d"
  by (rule nth_equalityI) (simp_all add: length_mask_spec nth_mask_spec xor.assoc)

text \<open>
  Claim C6.  For every four-byte key \<open>m\<close> and every byte span \<open>d\<close>, \<^verbatim>\<open>xor(m, d)\<close>
  returns without a panic and leaves in \<open>d\<close> exactly the byte-wise reference result:
  the span keeps its length and the byte at every index \<open>i\<close>, in the word blocks and
  in the tail after them, is \<open>d[i]\<close> exclusive-or \<open>m[i mod 4]\<close>.
\<close>

theorem C6_xor_is_bytewise_mask:
  assumes "length m = 4"
  shows "\<exists>d'. xor_slice m d = Some d' \<and> d' = mask_spec m d \<and> length d' = length d \<and>
           (\<forall>i < length d. d' ! i = d ! i XOR m ! (i mod 4))"
  using xor_refines_mask_spec [OF assms, of d]
  by (simp add: length_mask_spec nth_mask_spec)

theorem C6_xor_is_bytewise_mask_witness:
  "length [1, 2, 3, 4 :: byte] = 4 \<and>
   xor_slice [1, 2, 3, 4] [0x10, 0x20, 0x30, 0x40, 0x50, 0x60, 0x70, 0x80, 0x90, 0xa0, 0xb0] =
     Some [0x11, 0x22, 0x33, 0x44, 0x51, 0x62, 0x73, 0x84, 0x91, 0xa2, 0xb3]"
proof -
  have spec: "mask_spec [1, 2, 3, 4]
      [0x10, 0x20, 0x30, 0x40, 0x50, 0x60, 0x70, 0x80, 0x90, 0xa0, 0xb0] =
      [0x11, 0x22, 0x33, 0x44, 0x51, 0x62, 0x73, 0x84, 0x91, 0xa2, 0xb3 :: byte]"
    by code_simp
  have len: "length [1, 2, 3, 4 :: byte] = 4"
    by simp
  from C6_xor_is_bytewise_mask [OF len,
      of "[0x10, 0x20, 0x30, 0x40, 0x50, 0x60, 0x70, 0x80, 0x90, 0xa0, 0xb0]"]
  show ?thesis
    unfolding spec by simp
qed


section \<open>Verification: Close\<close>

lemma length_rmask: "length (rmask k) = 4"
  by (cases k) simp

lemma xor_slice_rmask: "xor_slice (rmask k) d = Some (mask_spec (rmask k) d)"
  by (rule xor_refines_mask_spec) (rule length_rmask)

lemma Close_noop: "closing s \<or> \<not> connected s \<Longrightarrow> Close env code s = Return s"
  by (subst Close.simps) auto

lemma send_not_connected: "\<not> connected s \<Longrightarrow> send env p s = Return (True, s)"
  by (subst send.simps) simp

lemma send_when_closing:
  assumes "closing s" "connected s"
  shows "send env p s =
     (case send_deadline env s of
        Panic \<Rightarrow> Panic
      | Return s1 \<Rightarrow>
          Return (\<not> write_ok env (tick s1),
                  s1\<lparr>tick := tick s1 + 1,
                     trace := trace s1 @ [WriteTo p (write_ok env (tick s1))]\<rparr>))"
proof (cases "send_deadline env s")
  case Panic
  then show ?thesis using assms by (subst send.simps) simp
next
  case (Return s1)
  then have "closing s1"
    using assms send_deadline_flags by blast
  then show ?thesis
    using assms Return by (subst send.simps) (simp add: Close_noop)
qed

lemma close_payload_eq: "close_payload cl k code = Return (close_frame cl k code)"
  by (simp add: close_payload_def close_frame_def Let_def xor_slice_rmask)

lemma send_deadline_cases:
  assumes "config s = Some c"
  shows "\<exists>dl. send_deadline env s =
           Return (s\<lparr>tick := tick s + 1,
                      slast := (if dl = [] then slast s else now_at env (tick s)),
                      trace := trace s @ dl\<rparr>) \<and>
         (dl = [] \<or> dl = [SetWriteDeadline (now_at env (tick s)) (WriteTimeout c)])"
proof (cases "now_at env (tick s) - slast s \<ge> Second")
  case True
  then show ?thesis
    using assms
    by (intro exI [of _ "[SetWriteDeadline (now_at env (tick s)) (WriteTimeout c)]"])
      (simp add: send_deadline_def Let_def)
next
  case False
  then show ?thesis
    using assms by (intro exI [of _ "[]"]) (simp add: send_deadline_def Let_def)
qed

lemma Close_first:
  assumes "connected s" "\<not> closing s" "config s = Some c"
  shows "\<exists>s' dl ok. Close env code s = Return s' \<and>
           trace s' = trace s @ [SetClosing] @
             (if CloseHandler c then [CloseHandlerCall code] else []) @ dl @
             [WriteTo (close_frame (client s) (rand_at env (tick s)) code) ok,
              SetDisconnected, ConnClose] \<and>
           (dl = [] \<or> (\<exists>t. dl = [SetWriteDeadline t (WriteTimeout c)])) \<and>
           closing s' \<and> \<not> connected s' \<and> config s' = config s \<and> client s' = client s"
proof -
  define s1 where "s1 = s\<lparr>closing := True,
       tick := (if client s then tick s + 1 else tick s),
       trace := trace s @ [SetClosing] @
         (case config s of None \<Rightarrow> []
          | Some c \<Rightarrow> if CloseHandler c then [CloseHandlerCall code] else [])\<rparr>"
  have s1: "closing s1" "connected s1" "config s1 = Some c"
    using assms by (simp_all add: s1_def)
  from send_deadline_cases [OF s1(3), of env]
  obtain dl where dl: "send_deadline env s1 =
           Return (s1\<lparr>tick := tick s1 + 1,
                      slast := (if dl = [] then slast s1 else now_at env (tick s1)),
                      trace := trace s1 @ dl\<rparr>)"
      "dl = [] \<or> dl = [SetWriteDeadline (now_at env (tick s1)) (WriteTimeout c)]"
    by blast
  define ok where "ok = write_ok env (Suc (tick s1))"
  define s2 where "s2 = s1\<lparr>tick := tick s1 + 1,
                      slast := (if dl = [] then slast s1 else now_at env (tick s1)),
                      trace := trace s1 @ dl\<rparr>"
  define s3 where "s3 = s2\<lparr>tick := tick s2 + 1,
                     trace := trace s2 @ [WriteTo (close_frame (client s) (rand_at env (tick s)) code) ok]\<rparr>"
  have snd: "send env (close_frame (client s) (rand_at env (tick s)) code) s1 = Return (\<not> ok, s3)"
    by (simp add: send_when_closing [OF s1(1,2)] dl(1) s2_def [symmetric])
      (simp add: s3_def s2_def ok_def)
  have cl: "Close env code s = Return (s3\<lparr>connected := False,
                                trace := trace s3 @ [SetDisconnected, ConnClose]\<rparr>)"
  proof -
    have "Close env code s =
       (if \<not> closing s \<and> connected s
        then (case close_payload (client s) (rand_at env (tick s)) code of
                Panic \<Rightarrow> Panic
              | Return payload \<Rightarrow>
                  (case send env payload s1 of
                     Panic \<Rightarrow> Panic
                   | Return (err, s') \<Rightarrow>
                       Return (s'\<lparr>connected := False,
                                  trace := trace s' @ [SetDisconnected, ConnClose]\<rparr>)))
        else Return s)"
      by (subst Close.simps) (simp only: s1_def)
    then show ?thesis
      using assms by (simp add: close_payload_eq snd)
  qed
  have tr: "trace (s3\<lparr>connected := False, trace := trace s3 @ [SetDisconnected, ConnClose]\<rparr>) =
           trace s @ [SetClosing] @
             (if CloseHandler c then [CloseHandlerCall code] else []) @ dl @
             [WriteTo (close_frame (client s) (rand_at env (tick s)) code) ok,
              SetDisconnected, ConnClose]"
    using assms by (simp add: s3_def s2_def s1_def)
  have fl: "closing (s3\<lparr>connected := False, trace := trace s3 @ [SetDisconnected, ConnClose]\<rparr>)"
     "\<not> connected (s3\<lparr>connected := False, trace := trace s3 @ [SetDisconnected, ConnClose]\<rparr>)"
     "config (s3\<lparr>connected := False, trace := trace s3 @ [SetDisconnected, ConnClose]\<rparr>) = config s"
     "client (s3\<lparr>connected := False, trace := trace s3 @ [SetDisconnected, ConnClose]\<rparr>) = client s"
    by (simp_all add: s3_def s2_def s1_def)
  from dl(2) have dl': "dl = [] \<or> (\<exists>t. dl = [SetWriteDeadline t (WriteTimeout c)])"
    by blast
  from cl tr fl dl' show ?thesis
    by blast
qed

lemma Close_calls_noop:
  "closing s \<or> \<not> connected s \<Longrightarrow> Close_calls env codes s = Return s"
  by (induction codes) (simp_all add: Close_noop)


lemma written_append: "written (es @ es') = written es @ written es'"
  by (induction es rule: written.induct) simp_all

lemma handler_calls_append:
  "handler_calls (es @ es') = handler_calls es @ handler_calls es'"
  by (induction es rule: handler_calls.induct) simp_all

lemma delivered_append: "delivered (es @ es') = delivered es @ delivered es'"
  by (induction es rule: delivered.induct) simp_all

text \<open>
  The first call of \<^verbatim>\<open>Close\<close> on a socket that is connected and not closing, with
  the refresh of the write deadline and the result of the write as the world decides
  them.
\<close>

lemma Close_first_exact:
  assumes "connected s" "\<not> closing s" "config s = Some c"
  shows "\<exists>s'. Close env code s = Return s' \<and>
           trace s' = trace s @ [SetClosing] @
             (if CloseHandler c then [CloseHandlerCall code] else []) @
             (if now_at env (tick s + (if client s then 1 else 0)) - slast s \<ge> Second
              then [SetWriteDeadline (now_at env (tick s + (if client s then 1 else 0)))
                      (WriteTimeout c)]
              else []) @
             [WriteTo (close_frame (client s) (rand_at env (tick s)) code)
                (write_ok env (tick s + (if client s then 2 else 1))),
              SetDisconnected, ConnClose] \<and>
           closing s' \<and> \<not> connected s'"
proof -
  define s1 where "s1 = s\<lparr>closing := True,
       tick := (if client s then tick s + 1 else tick s),
       trace := trace s @ [SetClosing] @
         (case config s of None \<Rightarrow> []
          | Some c \<Rightarrow> if CloseHandler c then [CloseHandlerCall code] else [])\<rparr>"
  define dl where "dl = (if now_at env (tick s1) - slast s1 \<ge> Second
              then [SetWriteDeadline (now_at env (tick s1)) (WriteTimeout c)] else [])"
  have s1: "closing s1" "connected s1" "config s1 = Some c"
    using assms by (simp_all add: s1_def)
  define s2 where "s2 = s1\<lparr>tick := tick s1 + 1,
                      slast := (if dl = [] then slast s1 else now_at env (tick s1)),
                      trace := trace s1 @ dl\<rparr>"
  have dl: "send_deadline env s1 = Return s2"
    using s1(3) by (simp add: send_deadline_def Let_def s2_def dl_def)
  define ok where "ok = write_ok env (Suc (tick s1))"
  define s3 where "s3 = s2\<lparr>tick := tick s2 + 1,
                     trace := trace s2 @ [WriteTo (close_frame (client s) (rand_at env (tick s)) code) ok]\<rparr>"
  have snd: "send env (close_frame (client s) (rand_at env (tick s)) code) s1 = Return (\<not> ok, s3)"
    by (simp add: send_when_closing [OF s1(1,2)] dl)
      (simp add: s3_def s2_def ok_def)
  have cl: "Close env code s = Return (s3\<lparr>connected := False,
                                trace := trace s3 @ [SetDisconnected, ConnClose]\<rparr>)"
  proof -
    have "Close env code s =
       (if \<not> closing s \<and> connected s
        then (case close_payload (client s) (rand_at env (tick s)) code of
                Panic \<Rightarrow> Panic
              | Return payload \<Rightarrow>
                  (case send env payload s1 of
                     Panic \<Rightarrow> Panic
                   | Return (err, s') \<Rightarrow>
                       Return (s'\<lparr>connected := False,
                                  trace := trace s' @ [SetDisconnected, ConnClose]\<rparr>)))
        else Return s)"
      by (subst Close.simps) (simp only: s1_def)
    then show ?thesis
      using assms by (simp add: close_payload_eq snd)
  qed
  have tk: "tick s1 = tick s + (if client s then 1 else 0)" "slast s1 = slast s"
    "ok = write_ok env (tick s + (if client s then 2 else 1))"
    by (simp_all add: s1_def ok_def)
  define s4 where "s4 = s3\<lparr>connected := False,
                           trace := trace s3 @ [SetDisconnected, ConnClose]\<rparr>"
  have tr: "trace s4 =
           trace s @ [SetClosing] @
             (if CloseHandler c then [CloseHandlerCall code] else []) @ dl @
             [WriteTo (close_frame (client s) (rand_at env (tick s)) code) ok,
              SetDisconnected, ConnClose]"
    using assms by (simp add: s4_def s3_def s2_def s1_def)
  have fl: "closing s4" "\<not> connected s4"
    by (simp_all add: s4_def s3_def s2_def s1_def)
  have "Close env code s = Return s4"
    by (simp only: cl s4_def)
  moreover note tr [unfolded dl_def tk] fl
  ultimately show ?thesis
    by (intro exI [of _ s4] conjI)
qed

text \<open>
  Claim C2, as amended.  Take a socket with a configuration and any sequence of one or
  more calls of \<^verbatim>\<open>Close\<close>, with any codes, run one after the other.  All calls return.
  If the socket was connected and not closing (as the handshake creates it), the calls
  together add to the trace exactly: \<^verbatim>\<open>closing = true\<close>; one call of \<^verbatim>\<open>CloseHandler\<close>
  with the code of the first call if a handler is configured, and no call if none is;
  a refresh of the write deadline if a second has passed since the last one; one
  write of the CLOSE frame of the first code, which reaches the stream if and only if
  that write succeeds (\<^verbatim>\<open>Close\<close> ignores the error of \<^verbatim>\<open>send\<close>); \<^verbatim>\<open>connected = false\<close>
  and the closing of the stream, in this order.  So the handler call, if any, comes
  before the only write of a CLOSE frame, \<^verbatim>\<open>closing\<close> is set exactly once, and
  \<^verbatim>\<open>connected\<close> is cleared exactly once and after \<^verbatim>\<open>closing\<close> was set.  On a socket
  that was not connected or was closing already, the calls change nothing.
\<close>

theorem C2_close_idempotent:
  assumes "config s = Some c"
  shows "\<exists>s'. Close_calls env (code # codes) s = Return s' \<and>
           (if connected s \<and> \<not> closing s
            then trace s' = trace s @ [SetClosing] @
                   (if CloseHandler c then [CloseHandlerCall code] else []) @
                   (if now_at env (tick s + (if client s then 1 else 0)) - slast s \<ge> Second
                    then [SetWriteDeadline (now_at env (tick s + (if client s then 1 else 0)))
                            (WriteTimeout c)]
                    else []) @
                   [WriteTo (close_frame (client s) (rand_at env (tick s)) code)
                      (write_ok env (tick s + (if client s then 2 else 1))),
                    SetDisconnected, ConnClose] \<and>
                 handler_calls (trace s') =
                   handler_calls (trace s) @ (if CloseHandler c then [code] else []) \<and>
                 written (trace s') =
                   written (trace s) @ [close_frame (client s) (rand_at env (tick s)) code] \<and>
                 delivered (trace s') =
                   delivered (trace s) @
                   (if write_ok env (tick s + (if client s then 2 else 1))
                    then [close_frame (client s) (rand_at env (tick s)) code] else []) \<and>
                 closing s' \<and> \<not> connected s'
            else s' = s)"
proof (cases "connected s \<and> \<not> closing s")
  case False
  then show ?thesis
    using Close_calls_noop [of s env "code # codes"] by auto
next
  case True
  then have pre: "connected s" "\<not> closing s"
    by simp_all
  from Close_first_exact [OF pre assms, of env code]
  obtain s' where r: "Close env code s = Return s'"
    "trace s' = trace s @ [SetClosing] @
             (if CloseHandler c then [CloseHandlerCall code] else []) @
             (if now_at env (tick s + (if client s then 1 else 0)) - slast s \<ge> Second
              then [SetWriteDeadline (now_at env (tick s + (if client s then 1 else 0)))
                      (WriteTimeout c)]
              else []) @
             [WriteTo (close_frame (client s) (rand_at env (tick s)) code)
                (write_ok env (tick s + (if client s then 2 else 1))),
              SetDisconnected, ConnClose]"
    "closing s'" "\<not> connected s'"
    by blast
  have calls: "Close_calls env (code # codes) s = Return s'"
    using r(1,3) by (simp add: Close_calls_noop)
  have h: "handler_calls (trace s') =
      handler_calls (trace s) @ (if CloseHandler c then [code] else [])"
    by (simp add: r(2) handler_calls_append)
  have w: "written (trace s') =
             written (trace s) @ [close_frame (client s) (rand_at env (tick s)) code]"
    by (simp add: r(2) written_append)
  have d: "delivered (trace s') =
             delivered (trace s) @
                   (if write_ok env (tick s + (if client s then 2 else 1))
                    then [close_frame (client s) (rand_at env (tick s)) code] else [])"
    by (simp add: r(2) delivered_append)
  from calls r(2,3,4) h w d True show ?thesis
    by simp
qed

theorem C2_close_idempotent_witness:
  "config server_socket = Some ((Handle_config zero_Config)\<lparr>CloseHandler := True\<rparr>) \<and>
   (\<exists>s'. Close_calls calm_env [1000, 0, 1001] server_socket = Return s' \<and>
      trace s' = [SetClosing, CloseHandlerCall 1000, WriteTo [[0x88, 2], [3, 232]] True,
                  SetDisconnected, ConnClose] \<and>
      handler_calls (trace s') = [1000] \<and>
      written (trace s') = [[[0x88, 2], [3, 232]]] \<and>
      delivered (trace s') = [[[0x88, 2], [3, 232]]] \<and>
      closing s' \<and> \<not> connected s')"
proof -
  have pre: "config server_socket = Some ((Handle_config zero_Config)\<lparr>CloseHandler := True\<rparr>)"
    by (simp add: server_socket_def)
  have ev: "connected server_socket" "\<not> closing server_socket" "\<not> client server_socket"
    "trace server_socket = []" "tick server_socket = 0" "slast server_socket = 0"
    "now_at calm_env n = 0" "write_ok calm_env n" "\<not> Second \<le> 0"
    "close_frame False k 1000 = [[0x88, 2], [3, 232]]" for n k
    by (simp_all add: server_socket_def calm_env_def Second_def close_frame_def be16_def)
  from C2_close_idempotent [OF pre, of calm_env 1000 "[0, 1001]"]
  have "\<exists>s'. Close_calls calm_env [1000, 0, 1001] server_socket = Return s' \<and>
      trace s' = [SetClosing, CloseHandlerCall 1000, WriteTo [[0x88, 2], [3, 232]] True,
                  SetDisconnected, ConnClose] \<and>
      handler_calls (trace s') = [1000] \<and>
      written (trace s') = [[[0x88, 2], [3, 232]]] \<and>
      delivered (trace s') = [[[0x88, 2], [3, 232]]] \<and>
      closing s' \<and> \<not> connected s'"
    by (simp add: ev)
  with pre show ?thesis
    by blast
qed


text \<open>
  Claim C2 as stated fails on two runs.  When the write to the stream fails, two calls
  of \<^verbatim>\<open>Close(1000)\<close> on a server socket call the handler and attempt the write of the
  CLOSE frame, but no frame reaches the stream.  When no \<^verbatim>\<open>CloseHandler\<close> is
  configured, two calls of \<^verbatim>\<open>Close(1000)\<close> write the CLOSE frame and call no handler.
\<close>

theorem C2_no_frame_no_handler_counterexample:
  "(\<exists>s'. Close_calls broken_env [1000, 1000] server_socket = Return s' \<and>
      trace s' = [SetClosing, CloseHandlerCall 1000, WriteTo [[0x88, 2], [3, 232]] False,
                  SetDisconnected, ConnClose] \<and>
      delivered (trace s') = []) \<and>
   config (scenario_socket False) = Some ((Dial_config zero_Config)\<lparr>FragmentSize := 8\<rparr>) \<and>
   \<not> CloseHandler ((Dial_config zero_Config)\<lparr>FragmentSize := 8\<rparr>) \<and>
   (\<exists>s'. Close_calls calm_env [1000, 1000] (scenario_socket False) = Return s' \<and>
      trace s' = [SetClosing, WriteTo [[0x88, 2], [3, 232]] True, SetDisconnected, ConnClose] \<and>
      handler_calls (trace s') = [])"
  by (simp add: Close.simps send.simps send_deadline_def close_payload_def calm_env_def
        broken_env_def server_socket_def scenario_socket_def Second_def be16_def Let_def
        Dial_config_def zero_Config_def)



section \<open>Verification: Write\<close>

lemma sdiv_smod_nonneg:
  "0 \<le> a \<Longrightarrow> 0 < b \<Longrightarrow> a sdiv b = a div b \<and> a smod b = a mod (b::int)"
  by (simp add: signed_divide_int_def signed_modulo_int_def sgn_if)

lemma splice_slice:
  "offset + sz \<le> length data \<Longrightarrow> length bytes = sz \<Longrightarrow>
   take sz (drop offset (splice data offset sz bytes)) = bytes"
  by (simp add: splice_def)

lemma splice_splice:
  "offset + sz \<le> length data \<Longrightarrow> length bytes = sz \<Longrightarrow>
   splice (splice data offset sz bytes) offset sz bytes' = splice data offset sz bytes'"
  by (simp add: splice_def)

lemma splice_same:
  "splice data offset sz (take sz (drop offset data)) = data"
  by (simp add: splice_def) (metis append_take_drop_id drop_drop add.commute)

lemma Write_frame_eq:
  assumes "0 \<le> offset" "0 \<le> sz" "offset + sz \<le> int (length data)"
    "offset = (frame - 1) * fs"
    "sz = (if frame = frames then int (length data) - offset else fs)"
  shows "Write_frame env fs mode data frame frames s =
     (case send env
        (fragment_payload (client s) (rand_at env (tick s))
           (if frame = frames then 0x80 else 0) (if frame > 1 then 0 else mode)
           (take (nat sz) (drop (nat offset) data)))
        (if client s then s\<lparr>tick := tick s + 1\<rparr> else s) of
        Panic \<Rightarrow> Panic
      | Return (err, s') \<Rightarrow> Return (err, data, s'))"
proof -
  have len: "nat offset + nat sz \<le> length data"
    using assms(1-3) by linarith
  have lchunk: "length (take (nat sz) (drop (nat offset) data)) = nat sz"
    using len by simp
  have restore: "splice (splice data (nat offset) (nat sz) (mask_spec k (take (nat sz) (drop (nat offset) data))))
                 (nat offset) (nat sz)
                 (mask_spec k (take (nat sz) (drop (nat offset) 
                    (splice data (nat offset) (nat sz) (mask_spec k (take (nat sz) (drop (nat offset) data))))))) = data" for k
    using len lchunk
    by (simp add: splice_slice splice_splice length_mask_spec mask_spec_involution splice_same
        del: length_take)
  have nopanic: "\<not> (offset < 0 \<or> sz < 0 \<or> offset + sz > int (length data))"
    using assms(1-3) by simp
  show ?thesis
    unfolding Write_frame_def Let_def assms(4) [symmetric] assms(5) [symmetric]
    using nopanic lchunk
    by (auto simp: xor_slice_rmask restore fragment_payload_def
        split: outcome.splits simp del: length_take)
qed

lemma send_cases:
  assumes cfg: "config s = Some c"
  shows "\<exists>err s'. send env p s = Return (err, s') \<and> config s' = Some c \<and>
           client s' = client s \<and>
           (if \<not> connected s then err \<and> s' = s
            else if \<not> err then connected s' \<and> written (trace s') = written (trace s) @ [p]
            else (\<exists>rest. written (trace s') = written (trace s) @ [p] @ rest \<and>
                    (rest = [] \<or> (\<exists>k. rest = [close_frame (client s) k 0])))) \<and>
           (connected s \<and> (\<forall>n. write_ok env n) \<longrightarrow> \<not> err)"
proof (cases "connected s")
  case False
  then show ?thesis using cfg by (auto simp: send_not_connected)
next
  case True
  from send_deadline_cases [OF cfg, of env]
  obtain dl where dl: "send_deadline env s =
           Return (s\<lparr>tick := tick s + 1,
                      slast := (if dl = [] then slast s else now_at env (tick s)),
                      trace := trace s @ dl\<rparr>)"
      "dl = [] \<or> dl = [SetWriteDeadline (now_at env (tick s)) (WriteTimeout c)]"
    by blast
  define s1 where "s1 = s\<lparr>tick := tick s + 1,
                      slast := (if dl = [] then slast s else now_at env (tick s)),
                      trace := trace s @ dl\<rparr>"
  have dl': "send_deadline env s = Return s1"
    by (simp add: dl(1) s1_def)
  have wdl: "written dl = []"
    using dl(2) by auto
  have s1: "config s1 = Some c" "client s1 = client s" "connected s1" "closing s1 = closing s"
    "written (trace s1) = written (trace s)"
    using cfg True by (simp_all add: s1_def written_append wdl)
  show ?thesis
  proof (cases "write_ok env (tick s1)")
    case ok: True
    have "send env p s = Return (False, s1\<lparr>tick := tick s1 + 1,
                                        trace := trace s1 @ [WriteTo p True]\<rparr>)"
      using True ok dl' by (subst send.simps) simp
    then show ?thesis
      using s1 True by (auto simp: written_append)
  next
    case fail: False
    define s2 where "s2 = s1\<lparr>tick := tick s1 + 1, trace := trace s1 @ [WriteTo p False]\<rparr>"
    have s2: "config s2 = Some c" "client s2 = client s" "connected s2" "closing s2 = closing s"
      "written (trace s2) = written (trace s) @ [p]"
      using s1 by (simp_all add: s2_def written_append)
    have snd: "send env p s = (case Close env 0 s2 of Panic \<Rightarrow> Panic
                       | Return s3 \<Rightarrow> Return (True, s3))"
      using True fail dl' by (subst send.simps) (simp add: s2_def)
    have nall: "\<not> (\<forall>n. write_ok env n)"
      using fail by blast
    show ?thesis
    proof (cases "closing s")
      case True
      then have "Close env 0 s2 = Return s2"
        using s2 by (simp add: Close_noop)
      then show ?thesis
        using snd s2 \<open>connected s\<close> nall by auto
    next
      case False
      then have "\<not> closing s2" using s2 by simp
      from Close_first [OF s2(3) this s2(1), of env 0]
      obtain s3 dl2 ok where s3: "Close env 0 s2 = Return s3"
        "trace s3 = trace s2 @ [SetClosing] @
             (if CloseHandler c then [CloseHandlerCall 0] else []) @ dl2 @
             [WriteTo (close_frame (client s2) (rand_at env (tick s2)) 0) ok,
              SetDisconnected, ConnClose]"
        "dl2 = [] \<or> (\<exists>t. dl2 = [SetWriteDeadline t (WriteTimeout c)])"
        "config s3 = config s2" "client s3 = client s2"
        by blast
      have "written dl2 = []" using s3(3) by auto
      then have w3: "written (trace s3) =
          written (trace s) @ [p] @ [close_frame (client s) (rand_at env (tick s2)) 0]"
        by (simp add: s3(2) written_append s2)
      have main: "send env p s = Return (True, s3)"
        using snd s3(1) by simp
      have rest: "\<exists>rest. written (trace s3) = written (trace s) @ [p] @ rest \<and>
                    (rest = [] \<or> (\<exists>k. rest = [close_frame (client s) k 0]))"
        using w3 by blast
      show ?thesis
        using rest s3(4,5) s2(1,2) \<open>connected s\<close> nall by (simp add: main; blast)
    qed
  qed
qed


lemma frames_needed_alt:
  assumes "0 < fs"
  shows "frames_needed len fs = len div fs + (if len mod fs \<noteq> 0 then 1 else 0)"
proof -
  define q r where "q = len div fs" and "r = len mod fs"
  define A where "A = fs * q"
  have len: "len = A + r" and r: "r < fs"
    using assms by (simp_all add: q_def r_def A_def)
  show ?thesis
  proof (cases "r = 0")
    case True
    have "(len + fs - 1) div fs = q"
    proof (rule div_nat_eqI)
      show "fs * q \<le> len + fs - 1" using len assms by (simp add: A_def [symmetric])
      show "len + fs - 1 < fs * Suc q" using len assms True by (simp add: A_def [symmetric])
    qed
    then show ?thesis
      using True by (simp add: frames_needed_def q_def [symmetric] r_def [symmetric])
  next
    case False
    have "(len + fs - 1) div fs = Suc q"
    proof (rule div_nat_eqI)
      show "fs * Suc q \<le> len + fs - 1" using len False by (simp add: A_def [symmetric])
      show "len + fs - 1 < fs * Suc (Suc q)" using len r by (simp add: A_def [symmetric])
    qed
    then show ?thesis
      using False by (simp add: frames_needed_def q_def [symmetric] r_def [symmetric])
  qed
qed

lemma frames_needed_upper:
  assumes fs: "0 < fs"
  shows "len \<le> frames_needed len fs * fs"
proof -
  define A where "A = fs * (len div fs)"
  have eq: "A + len mod fs = len" by (simp add: A_def)
  have r: "len mod fs < fs" using fs by simp
  show ?thesis
    unfolding frames_needed_alt [OF fs] using eq r
    by (cases "len mod fs = 0") (simp_all add: algebra_simps A_def [symmetric])
qed

lemma frames_needed_lower:
  assumes fs: "0 < fs" and len: "0 < len"
  shows "(frames_needed len fs - 1) * fs < len"
proof -
  define A where "A = fs * (len div fs)"
  have eq: "A + len mod fs = len" by (simp add: A_def)
  show ?thesis
  proof (cases "len mod fs = 0")
    case True
    then have A: "A = len" using eq by simp
    with len have "0 < len div fs"
      by (cases "len div fs = 0") (simp_all add: A_def)
    then obtain p where p: "len div fs = Suc p"
      by (cases "len div fs") simp_all
    have "p * fs < len"
      using A fs by (simp add: A_def p mult.commute)
    then show ?thesis
      unfolding frames_needed_alt [OF fs] by (simp add: True p)
  next
    case False
    then show ?thesis
      unfolding frames_needed_alt [OF fs] using eq
      by (simp add: algebra_simps A_def [symmetric])
  qed
qed

lemma frames_int:
  assumes "0 < fs"
  shows "int len sdiv int fs + (if int len smod int fs \<noteq> 0 then 1 else 0)
         = int (frames_needed len fs)"
proof -
  have "int len sdiv int fs = int (len div fs)" "int len smod int fs = int (len mod fs)"
    using assms by (simp_all add: signed_divide_int_def signed_modulo_int_def sgn_if zdiv_int zmod_int)
  then show ?thesis
    by (simp add: frames_needed_alt [OF assms])
qed


lemma Write_frame_expected:
  assumes F: "0 < F" and L: "0 < length data" and n: "n = frames_needed (length data) F"
    and i: "i < n" and m: "i = 0 \<longrightarrow> m = mode"
  shows "Write_frame env (int F) m data (int i + 1) (int n) s =
     (case send env (expected_fragment (client s) (rand_at env (tick s)) F mode data i)
             (if client s then s\<lparr>tick := tick s + 1\<rparr> else s) of
        Panic \<Rightarrow> Panic
      | Return (err, s') \<Rightarrow> Return (err, data, s'))"
proof -
  define offset where "offset = (int i + 1 - 1) * int F"
  define sz where "sz = (if int i + 1 = int n then int (length data) - offset else int F)"
  have up: "length data \<le> n * F" and low: "(n - 1) * F < length data"
    using frames_needed_upper [OF F] frames_needed_lower [OF F L] by (simp_all add: n)
  have off: "offset = int (i * F)"
    by (simp add: offset_def)
  have iF: "i * F \<le> (n - 1) * F"
    using i by (intro mult_le_mono1) simp
  have iL: "i * F \<le> length data"
    using iF low by linarith
  have sz_last: "sz = int (length data - i * F)" "length data - i * F \<le> F" if "Suc i = n"
  proof -
    have "int i + 1 = int n" using that by simp
    then show "sz = int (length data - i * F)"
      using iL by (simp add: sz_def off of_nat_diff)
    have "length data \<le> Suc i * F" using up that by simp
    then show "length data - i * F \<le> F" by simp
  qed
  have sz_mid: "sz = int F" "Suc i * F \<le> length data" if "Suc i \<noteq> n"
  proof -
    have "int i + 1 \<noteq> int n" using that by linarith
    then show "sz = int F" by (simp add: sz_def)
    have "Suc i \<le> n - 1" using that i by simp
    then have "Suc i * F \<le> (n - 1) * F" by (intro mult_le_mono1)
    then show "Suc i * F \<le> length data" using low by linarith
  qed
  have r1: "0 \<le> offset"
    by (simp add: off)
  have r2: "0 \<le> sz"
    using sz_last(1) sz_mid(1) by (cases "Suc i = n") simp_all
  have r3: "offset + sz \<le> int (length data)"
  proof (cases "Suc i = n")
    case True
    show ?thesis unfolding off sz_last(1) [OF True] using iL by linarith
  next
    case False
    have "int (i * F) + int F = int (Suc i * F)" by (simp add: algebra_simps)
    then show ?thesis unfolding off sz_mid(1) [OF False] using sz_mid(2) [OF False] by linarith
  qed
  note range = r1 r2 r3
  have noff: "nat offset = i * F"
    unfolding off by (rule nat_int)
  have ch: "take (nat sz) (drop (nat offset) data) = chunk F data i"
  proof (cases "Suc i = n")
    case True
    then show ?thesis using sz_last [OF True] by (simp add: noff chunk_def)
  next
    case False
    then show ?thesis using sz_mid [OF False] by (simp add: noff chunk_def)
  qed
  have fin: "(if int i + 1 = int n then 0x80 else 0 :: byte) =
             (if Suc i = frames_needed (length data) F then 0x80 else 0)"
    by (auto simp: n)
  have op: "(if int i + 1 > 1 then 0 else m) = (if i = 0 then mode else 0)"
    using m by auto
  show ?thesis
    using Write_frame_eq [OF range offset_def sz_def, of env m s]
    by (simp only: ch fin op expected_fragment_def)
qed

lemma Write_loop_frames:
  assumes F: "0 < F" and L: "0 < length data" and n: "n = frames_needed (length data) F"
  shows "config s = Some c \<Longrightarrow> i \<le> n \<Longrightarrow> (i = 0 \<longrightarrow> m = mode) \<Longrightarrow>
    \<exists>err s' j ks rest.
       Write_loop env (int F) m data (int i + 1) (int n) s = Return (err, data, s') \<and>
       config s' = Some c \<and> client s' = client s \<and> i \<le> j \<and> j \<le> n \<and>
       written (trace s') = written (trace s) @
         map (\<lambda>q. expected_fragment (client s) (ks q) F mode data q) [i..<j] @ rest \<and>
       (rest = [] \<or> (\<exists>k. rest = [close_frame (client s) k 0])) \<and>
       (\<not> err \<longrightarrow> j = n \<and> rest = []) \<and>
       (connected s \<and> (\<forall>t. write_ok env t) \<longrightarrow> \<not> err)"
proof (induction "n - i" arbitrary: i s m)
  case 0
  then have "i = n" by simp
  then have "Write_loop env (int F) m data (int i + 1) (int n) s = Return (False, data, s)"
    by (subst Write_loop.simps) simp
  then show ?case
    using 0 \<open>i = n\<close>
    by (intro exI [of _ False] exI [of _ s] exI [of _ n] exI [of _ "\<lambda>q. (0, 0, 0, 0)"]
        exI [of _ "[]"]) simp
next
  case (Suc d)
  then have i: "i < n" by simp
  define k where "k = rand_at env (tick s)"
  define sr where "sr = (if client s then s\<lparr>tick := tick s + 1\<rparr> else s)"
  define P where "P = expected_fragment (client s) k F mode data i"
  have sr: "config sr = Some c" "client sr = client s" "connected sr = connected s"
    "trace sr = trace s"
    using Suc.prems by (simp_all add: sr_def)
  have wf: "Write_frame env (int F) m data (int i + 1) (int n) s =
     (case send env P sr of Panic \<Rightarrow> Panic | Return (err, s') \<Rightarrow> Return (err, data, s'))"
    using Write_frame_expected [OF F L n i Suc.prems(3), of env s]
    by (simp add: P_def k_def sr_def)
  from send_cases [OF sr(1), of env P]
  obtain err s1 where s1: "send env P sr = Return (err, s1)" "config s1 = Some c"
    "client s1 = client s"
    "if \<not> connected s then err \<and> s1 = sr
     else if \<not> err then connected s1 \<and> written (trace s1) = written (trace s) @ [P]
     else (\<exists>rest. written (trace s1) = written (trace s) @ [P] @ rest \<and>
             (rest = [] \<or> (\<exists>k. rest = [close_frame (client s) k 0])))"
    "connected s \<and> (\<forall>n. write_ok env n) \<longrightarrow> \<not> err"
    unfolding sr by blast
  have unf: "Write_loop env (int F) m data (int i + 1) (int n) s =
      (if err then Return (True, data, s1)
       else Write_loop env (int F) (if int i + 1 > 1 then 0 else m) data (int i + 1 + 1) (int n) s1)"
    using i by (subst Write_loop.simps) (simp only: wf s1(1), simp)
  have e: "int (Suc i) + 1 = int i + 1 + 1"
    by simp
  show ?case
  proof (cases err)
    case True
    note err = True
    show ?thesis
    proof (cases "connected s")
      case False
      then have "written (trace s1) = written (trace s)"
        using s1(4) sr(4) by simp
      then show ?thesis
        using unf err s1(2,3) i False
        by (intro exI [of _ True] exI [of _ s1] exI [of _ i] exI [of _ "\<lambda>q. k"]
            exI [of _ "[]"]) simp
    next
      case True
      with s1(4) err have "\<exists>rest. written (trace s1) = written (trace s) @ [P] @ rest \<and>
             (rest = [] \<or> (\<exists>k. rest = [close_frame (client s) k 0]))"
        by simp
      then obtain rest where rest: "written (trace s1) = written (trace s) @ [P] @ rest"
        "rest = [] \<or> (\<exists>k. rest = [close_frame (client s) k 0])"
        by blast
      have "[i..<Suc i] = [i]" by simp
      then have "written (trace s1) = written (trace s) @
         map (\<lambda>q. expected_fragment (client s) k F mode data q) [i..<Suc i] @ rest"
        using rest(1) by (simp add: P_def)
      then show ?thesis
        using unf err s1(2,3,5) i rest(2) True
        by (intro exI [of _ True] exI [of _ s1] exI [of _ "Suc i"] exI [of _ "\<lambda>q. k"]
            exI [of _ rest]) simp
    qed
  next
    case False
    note ok = False
    then have con: "connected s" "connected s1" and w1: "written (trace s1) = written (trace s) @ [P]"
      using s1(4) by (auto split: if_splits)
    have d: "d = n - Suc i" using Suc.hyps(2) by simp
    have si: "Suc i \<le> n" using i by simp
    have triv: "Suc i = 0 \<longrightarrow> (if int i + 1 > 1 then 0 else m) = mode"
      by simp
    from Suc.hyps(1) [OF d s1(2) si triv, unfolded e]
    obtain err' s' j ks rest where r:
       "Write_loop env (int F) (if int i + 1 > 1 then 0 else m) data (int i + 1 + 1) (int n) s1 =
          Return (err', data, s')"
       "config s' = Some c" "client s' = client s1" "Suc i \<le> j" "j \<le> n"
       "written (trace s') = written (trace s1) @
         map (\<lambda>q. expected_fragment (client s1) (ks q) F mode data q) [Suc i..<j] @ rest"
       "rest = [] \<or> (\<exists>k. rest = [close_frame (client s1) k 0])"
       "\<not> err' \<longrightarrow> j = n \<and> rest = []"
       "connected s1 \<and> (\<forall>t. write_ok env t) \<longrightarrow> \<not> err'"
      by blast
    define ks' where "ks' = ks(i := k)"
    have m1: "map (\<lambda>q. expected_fragment (client s) (ks q) F mode data q) [Suc i..<j] =
              map (\<lambda>q. expected_fragment (client s) (ks' q) F mode data q) [Suc i..<j]"
      by (rule map_cong) (auto simp: ks'_def)
    have up: "[i..<j] = i # [Suc i..<j]"
      using r(4) by (simp add: upt_conv_Cons)
    have w: "written (trace s') = written (trace s) @
         map (\<lambda>q. expected_fragment (client s) (ks' q) F mode data q) [i..<j] @ rest"
      unfolding up r(6) w1 s1(3) m1 by (simp add: P_def ks'_def)
    show ?thesis
      using unf ok r(1,2,3,4,5,7,8,9) s1(3) con w
      by (intro exI [of _ err'] exI [of _ s'] exI [of _ j] exI [of _ ks'] exI [of _ rest]) simp
  qed
qed

lemma chunk_length:
  assumes F: "0 < F" and L: "0 < length data" and q: "q < frames_needed (length data) F"
  shows "length (chunk F data q) =
           (if Suc q = frames_needed (length data) F then length data - q * F else F)"
proof -
  define n where "n = frames_needed (length data) F"
  have up: "length data \<le> n * F" and low: "(n - 1) * F < length data"
    using frames_needed_upper [OF F] frames_needed_lower [OF F L] by (simp_all add: n_def)
  show ?thesis
  proof (cases "Suc q = n")
    case True
    then have "length data \<le> Suc q * F" using up by simp
    then have "length data - q * F \<le> F" by simp
    then show ?thesis using True by (simp add: chunk_def n_def [symmetric])
  next
    case False
    then have "Suc q \<le> n - 1" using q by (simp add: n_def)
    then have "Suc q * F \<le> (n - 1) * F" by (intro mult_le_mono1)
    then have "Suc q * F \<le> length data" using low by linarith
    then have "F \<le> length data - q * F" by simp
    then show ?thesis using False by (simp add: chunk_def n_def [symmetric])
  qed
qed

lemma expected_fragment_header:
  "hd (hd (expected_fragment cl k F mode data q)) =
     (if Suc q = frames_needed (length data) F then 0x80 else 0) OR (if q = 0 then mode else 0)"
  by (simp add: expected_fragment_def fragment_payload_def frame_header_def Let_def)

lemma expected_fragment_last:
  "last (expected_fragment cl k F mode data q) =
     (if cl then mask_spec (rmask k) (chunk F data q) else chunk F data q)"
  by (simp add: expected_fragment_def fragment_payload_def)

lemma Write_noop:
  "\<not> ((mode = 1 \<or> mode = 2) \<and> data \<noteq> []) \<Longrightarrow> Write env mode data s = Return (False, data, s)"
  by (auto simp: Write_def)

lemma Write_frames:
  assumes cfg: "config s = Some c" and fs: "0 < FragmentSize c"
    and valid: "mode = 1 \<or> mode = 2" "data \<noteq> []"
  shows "\<exists>err s' j ks rest.
       Write env mode data s = Return (err, data, s') \<and>
       config s' = Some c \<and> client s' = client s \<and>
       j \<le> frames_needed (length data) (nat (FragmentSize c)) \<and>
       written (trace s') = written (trace s) @
         map (\<lambda>q. expected_fragment (client s) (ks q) (nat (FragmentSize c)) mode data q) [0..<j] @
         rest \<and>
       (rest = [] \<or> (\<exists>k. rest = [close_frame (client s) k 0])) \<and>
       (\<not> err \<longrightarrow> j = frames_needed (length data) (nat (FragmentSize c)) \<and> rest = []) \<and>
       (connected s \<and> (\<forall>t. write_ok env t) \<longrightarrow> \<not> err)"
proof -
  define F where "F = nat (FragmentSize c)"
  define n where "n = frames_needed (length data) F"
  have F: "0 < F" "int F = FragmentSize c"
    using fs by (simp_all add: F_def)
  have L: "0 < length data" using valid by simp
  have w: "Write env mode data s = Write_loop env (int F) mode data (int 0 + 1) (int n) s"
    using valid cfg fs frames_int [OF F(1), of "length data"]
    by (simp add: Write_def F(2) n_def)
  have "0 \<le> n" "(0::nat) = 0 \<longrightarrow> mode = mode" by simp_all
  from Write_loop_frames [OF F(1) L n_def cfg this, of env]
  show ?thesis
    unfolding w F_def [symmetric] n_def [symmetric] by blast
qed


text \<open>
  Claim C3, as amended.  On a socket with a configuration whose \<^verbatim>\<open>FragmentSize\<close> is
  positive: if the opcode is not TEXT (1) or BLOB (2), or the data is empty,
  \<^verbatim>\<open>Write\<close> returns no error and leaves the data and the socket unchanged.  Otherwise
  it returns, with the data unchanged, after handing to the stream the first \<open>j\<close> of
  the \<open>n = ceil(len / FragmentSize)\<close> expected fragments, in order, and nothing else but
  possibly the CLOSE frame (code 0) of the \<^verbatim>\<open>Close\<close> that a failed write triggers;
  if it returns no error then \<open>j = n\<close> and there is no CLOSE frame, and it returns no
  error when the socket is connected and every write succeeds.  Fragment \<open>q\<close> (from 0)
  has as first header byte FIN (only if it is the last) or-ed with the opcode (the
  original one if it is the first, else 0), and carries \<^verbatim>\<open>FragmentSize\<close> bytes, the
  last one the remainder.
\<close>

theorem C3_write_fragments:
  assumes "config s = Some c" "0 < FragmentSize c"
  shows "(\<not> ((mode = 1 \<or> mode = 2) \<and> data \<noteq> []) \<longrightarrow>
            Write env mode data s = Return (False, data, s)) \<and>
         ((mode = 1 \<or> mode = 2) \<and> data \<noteq> [] \<longrightarrow>
            (\<exists>err s' j ks rest.
               Write env mode data s = Return (err, data, s') \<and>
               j \<le> frames_needed (length data) (nat (FragmentSize c)) \<and>
               written (trace s') = written (trace s) @
                 map (\<lambda>q. expected_fragment (client s) (ks q) (nat (FragmentSize c)) mode data q)
                   [0..<j] @ rest \<and>
               (rest = [] \<or> (\<exists>k. rest = [close_frame (client s) k 0])) \<and>
               (\<not> err \<longrightarrow> j = frames_needed (length data) (nat (FragmentSize c)) \<and> rest = []) \<and>
               (connected s \<and> (\<forall>t. write_ok env t) \<longrightarrow> \<not> err)) \<and>
            (\<forall>q < frames_needed (length data) (nat (FragmentSize c)).
               length (chunk (nat (FragmentSize c)) data q) =
                 (if Suc q = frames_needed (length data) (nat (FragmentSize c))
                  then length data - q * nat (FragmentSize c) else nat (FragmentSize c)) \<and>
               (\<forall>k. hd (hd (expected_fragment (client s) k (nat (FragmentSize c)) mode data q)) =
                  (if Suc q = frames_needed (length data) (nat (FragmentSize c)) then 0x80 else 0) OR
                  (if q = 0 then mode else 0))))"
proof (intro conjI impI)
  assume "\<not> ((mode = 1 \<or> mode = 2) \<and> data \<noteq> [])"
  then show "Write env mode data s = Return (False, data, s)"
    by (rule Write_noop)
next
  assume v: "(mode = 1 \<or> mode = 2) \<and> data \<noteq> []"
  from Write_frames [OF assms, of mode data env] v
  show "\<exists>err s' j ks rest.
               Write env mode data s = Return (err, data, s') \<and>
               j \<le> frames_needed (length data) (nat (FragmentSize c)) \<and>
               written (trace s') = written (trace s) @
                 map (\<lambda>q. expected_fragment (client s) (ks q) (nat (FragmentSize c)) mode data q)
                   [0..<j] @ rest \<and>
               (rest = [] \<or> (\<exists>k. rest = [close_frame (client s) k 0])) \<and>
               (\<not> err \<longrightarrow> j = frames_needed (length data) (nat (FragmentSize c)) \<and> rest = []) \<and>
               (connected s \<and> (\<forall>t. write_ok env t) \<longrightarrow> \<not> err)"
    by blast
next
  assume v: "(mode = 1 \<or> mode = 2) \<and> data \<noteq> []"
  show "\<forall>q < frames_needed (length data) (nat (FragmentSize c)).
               length (chunk (nat (FragmentSize c)) data q) =
                 (if Suc q = frames_needed (length data) (nat (FragmentSize c))
                  then length data - q * nat (FragmentSize c) else nat (FragmentSize c)) \<and>
               (\<forall>k. hd (hd (expected_fragment (client s) k (nat (FragmentSize c)) mode data q)) =
                  (if Suc q = frames_needed (length data) (nat (FragmentSize c)) then 0x80 else 0) OR
                  (if q = 0 then mode else 0))"
    using chunk_length [of "nat (FragmentSize c)" data] assms(2) v
    by (simp add: expected_fragment_header)
qed


text \<open>
  Scenario 2 on a server socket: three frames with headers \<^verbatim>\<open>02 08\<close>, \<^verbatim>\<open>00 08\<close> and
  \<^verbatim>\<open>80 04\<close>.
\<close>

lemma scen_frames: "frames_needed (length scenario_data) 8 = 3"
  by (simp add: frames_needed_def scenario_data_def)

lemma scen_fragments:
  "expected_fragment False k 8 2 scenario_data 0 = [[0x02, 0x08], [0, 1, 2, 3, 4, 5, 6, 7]]"
  "expected_fragment False k 8 2 scenario_data 1 = [[0x00, 0x08], [8, 9, 10, 11, 12, 13, 14, 15]]"
  "expected_fragment False k 8 2 scenario_data 2 = [[0x80, 0x04], [16, 17, 18, 19]]"
  by (simp_all add: expected_fragment_def fragment_payload_def frame_header_def chunk_def
      scen_frames Let_def) (simp_all add: scenario_data_def)

lemma scen_written:
  "map (\<lambda>q. expected_fragment False (ks q) 8 2 scenario_data q) [0..<3] =
     [[[0x02, 0x08], [0, 1, 2, 3, 4, 5, 6, 7]],
      [[0x00, 0x08], [8, 9, 10, 11, 12, 13, 14, 15]],
      [[0x80, 0x04], [16, 17, 18, 19]]]"
proof -
  have "[0..<3] = [0, 1, 2]"
    by code_simp
  then show ?thesis
    by (simp only: list.map scen_fragments)
qed

theorem C3_write_fragments_witness:
  "config (scenario_socket False) = Some ((Dial_config zero_Config)\<lparr>FragmentSize := 8\<rparr>) \<and>
   0 < FragmentSize ((Dial_config zero_Config)\<lparr>FragmentSize := 8\<rparr>) \<and>
   (\<exists>s'. Write calm_env 2 scenario_data (scenario_socket False) =
            Return (False, scenario_data, s') \<and>
      written (trace s') =
        [[[0x02, 0x08], [0, 1, 2, 3, 4, 5, 6, 7]],
         [[0x00, 0x08], [8, 9, 10, 11, 12, 13, 14, 15]],
         [[0x80, 0x04], [16, 17, 18, 19]]])"
proof -
  have pre: "config (scenario_socket False) = Some ((Dial_config zero_Config)\<lparr>FragmentSize := 8\<rparr>)"
    "0 < FragmentSize ((Dial_config zero_Config)\<lparr>FragmentSize := 8\<rparr>)"
    by (simp_all add: scenario_socket_def)
  have fs: "nat (FragmentSize ((Dial_config zero_Config)\<lparr>FragmentSize := 8\<rparr>)) = 8"
    by simp
  have ok: "connected (scenario_socket False) \<and> (\<forall>t. write_ok calm_env t)"
    "client (scenario_socket False) = False" "trace (scenario_socket False) = []"
    "(2::byte) = 1 \<or> (2::byte) = 2" "scenario_data \<noteq> []"
    by (simp_all add: scenario_socket_def calm_env_def scenario_data_def)
  note t = C3_write_fragments [OF pre, of 2 scenario_data calm_env, unfolded fs scen_frames]
  from t ok(4,5) have "\<exists>err s' j ks rest.
       Write calm_env 2 scenario_data (scenario_socket False) = Return (err, scenario_data, s') \<and>
       j \<le> 3 \<and>
       written (trace s') = written (trace (scenario_socket False)) @
         map (\<lambda>q. expected_fragment (client (scenario_socket False)) (ks q) 8 2 scenario_data q)
           [0..<j] @ rest \<and>
       (rest = [] \<or> (\<exists>k. rest = [close_frame (client (scenario_socket False)) k 0])) \<and>
       (\<not> err \<longrightarrow> j = 3 \<and> rest = []) \<and>
       (connected (scenario_socket False) \<and> (\<forall>t. write_ok calm_env t) \<longrightarrow> \<not> err)"
    by blast
  then obtain err s' j ks rest where r:
    "Write calm_env 2 scenario_data (scenario_socket False) = Return (err, scenario_data, s')"
    "written (trace s') = written (trace (scenario_socket False)) @
         map (\<lambda>q. expected_fragment (client (scenario_socket False)) (ks q) 8 2 scenario_data q)
           [0..<j] @ rest"
    "\<not> err \<longrightarrow> j = 3 \<and> rest = []"
    "connected (scenario_socket False) \<and> (\<forall>t. write_ok calm_env t) \<longrightarrow> \<not> err"
    by blast
  from r(3,4) ok(1) have e: "\<not> err" "j = 3" "rest = []"
    by blast+
  have "written (trace s') =
        [[[0x02, 0x08], [0, 1, 2, 3, 4, 5, 6, 7]],
         [[0x00, 0x08], [8, 9, 10, 11, 12, 13, 14, 15]],
         [[0x80, 0x04], [16, 17, 18, 19]]]"
    unfolding r(2) e ok(2,3) by (simp add: scen_written)
  with r(1) e(1) pre show ?thesis
    by simp
qed


text \<open>
  Claim C3 as stated fails on a socket that is not connected (after \<^verbatim>\<open>Close\<close>, say):
  \<^verbatim>\<open>Write\<close> of a valid two-byte TEXT message returns the error of \<^verbatim>\<open>send\<close> and nothing
  is written, where the claim has exactly one frame produced.
\<close>

theorem C3_write_stops_counterexample:
  "Write calm_env 1 [0x68, 0x69] ((scenario_socket False)\<lparr>connected := False\<rparr>) =
     Return (True, [0x68, 0x69], (scenario_socket False)\<lparr>connected := False\<rparr>) \<and>
   written (trace ((scenario_socket False)\<lparr>connected := False\<rparr>)) = [] \<and>
   frames_needed (length [0x68, 0x69 :: byte]) 8 = 1"
  by (simp add: Write_def Write_loop.simps Write_frame_def send.simps scenario_socket_def
      frames_needed_def Let_def signed_divide_int_def signed_modulo_int_def)


text \<open>
  Claim C7.  On a client socket (with a configuration whose \<^verbatim>\<open>FragmentSize\<close> is
  positive) every call of \<^verbatim>\<open>Write\<close> returns, with or without an error, and the
  caller's slice then holds exactly its original contents.
\<close>

theorem C7_write_restores_data:
  assumes "config s = Some c" "0 < FragmentSize c" "client s"
  shows "\<exists>err s'. Write env mode data s = Return (err, data, s')"
proof (cases "(mode = 1 \<or> mode = 2) \<and> data \<noteq> []")
  case True
  with Write_frames [OF assms(1,2), of mode data env] show ?thesis by blast
next
  case False
  from Write_noop [OF False] show ?thesis by blast
qed


theorem C7_write_restores_data_witness:
  "config (scenario_socket True) = Some ((Dial_config zero_Config)\<lparr>FragmentSize := 8\<rparr>) \<and>
   0 < FragmentSize ((Dial_config zero_Config)\<lparr>FragmentSize := 8\<rparr>) \<and>
   client (scenario_socket True) \<and>
   (\<exists>err s'. Write calm_env 2 scenario_data (scenario_socket True) =
      Return (err, scenario_data, s')) \<and>
   (\<exists>err s'. Write broken_env 2 scenario_data (scenario_socket True) =
      Return (err, scenario_data, s'))"
proof -
  have pre: "config (scenario_socket True) = Some ((Dial_config zero_Config)\<lparr>FragmentSize := 8\<rparr>)"
    "0 < FragmentSize ((Dial_config zero_Config)\<lparr>FragmentSize := 8\<rparr>)"
    "client (scenario_socket True)"
    by (simp_all add: scenario_socket_def)
  from C7_write_restores_data [OF pre, of calm_env 2 scenario_data]
    C7_write_restores_data [OF pre, of broken_env 2 scenario_data] pre
  show ?thesis
    by blast
qed


section \<open>Verification: the server handshake\<close>

lemma lower_examples:
  "ToLower ''keep-alive, Upgrade'' = ''keep-alive, upgrade''"
  "ToLower ''WebSocket'' = ''websocket''"
  by code_simp+

lemma req_valid:
  "Contains (ToLower (Header (upgrade_request offered) ''Connection'')) ''upgrade''"
  "ToLower (Header (upgrade_request offered) ''Upgrade'') = ''websocket''"
  "Method (upgrade_request offered) = ''GET''"
  "Header (upgrade_request offered) ''Sec-WebSocket-Version'' = ''13''"
  "Header (upgrade_request offered) ''Sec-WebSocket-Key'' \<noteq> []"
  "hijacker fresh_writer"
  by (simp_all add: upgrade_request_def fresh_writer_def lower_examples)


text \<open>
  Claim C10.  When the request is an upgrade request (its \<^verbatim>\<open>Connection\<close> header
  contains \<^verbatim>\<open>upgrade\<close>, its \<^verbatim>\<open>Upgrade\<close> header is \<^verbatim>\<open>websocket\<close>, the method is GET, the
  version is 13 and the key is not empty) and the response writer is a hijacker,
  \<^verbatim>\<open>Handle\<close> with a nil configuration panics: it reads \<^verbatim>\<open>config.Protocols\<close> on line 276,
  before the nil check of line 304.
\<close>

theorem C10_handle_nil_config_panics:
  assumes "Contains (ToLower (Header request ''Connection'')) ''upgrade''"
    "ToLower (Header request ''Upgrade'') = ''websocket''"
    "Method request = ''GET''"
    "Header request ''Sec-WebSocket-Version'' = ''13''"
    "Header request ''Sec-WebSocket-Key'' \<noteq> []"
    "hijacker response"
  shows "Handle accept response request None = Panic"
  using assms by (simp add: Handle_def)

theorem C10_handle_nil_config_panics_witness:
  "Contains (ToLower (Header (upgrade_request []) ''Connection'')) ''upgrade'' \<and>
   ToLower (Header (upgrade_request []) ''Upgrade'') = ''websocket'' \<and>
   Method (upgrade_request []) = ''GET'' \<and>
   Header (upgrade_request []) ''Sec-WebSocket-Version'' = ''13'' \<and>
   Header (upgrade_request []) ''Sec-WebSocket-Key'' \<noteq> [] \<and>
   hijacker fresh_writer \<and>
   Handle (\<lambda>ckey. ckey) fresh_writer (upgrade_request []) None = Panic"
  using C10_handle_nil_config_panics [of "upgrade_request []" fresh_writer "\<lambda>ckey. ckey"]
    req_valid
  by simp


lemma pick_protocol_last:
  "pick_protocol sp cs p =
     (if filter (\<lambda>v. v \<in> set sp) cs = [] then p else last (filter (\<lambda>v. v \<in> set sp) cs))"
  by (induction cs arbitrary: p) auto

lemma length_split_runs: "length (split_runs k str cur) \<le> Suc k"
  by (induction k str cur rule: split_runs.induct) auto

lemma length_Split: "length (Split str n) \<le> n"
  using length_split_runs [of "n - 1" str "[]"] by (auto simp: Split_def)

lemma negotiate_last:
  "negotiate sp hdr =
     (if filter (\<lambda>v. v \<in> set sp) (Split hdr 10) = [] then []
      else last (filter (\<lambda>v. v \<in> set sp) (Split hdr 10)))"
  by (auto simp: negotiate_def Let_def pick_protocol_last)


text \<open>
  Claim C8, as amended.  For an upgrade request on a hijackable writer and a
  configuration with a non-empty protocol list, \<^verbatim>\<open>Handle\<close> splits the client's
  \<^verbatim>\<open>Sec-WebSocket-Protocol\<close> header on \<^verbatim>\<open>[, ]+\<close> into at most ten pieces (the tenth being
  the unsplit remainder) and chooses the last piece that is in the server's list, or
  none.  If none is chosen and \<^verbatim>\<open>NeedProtocol\<close> is set it replies 400 and returns no
  socket.  Otherwise it replies 101; the \<^verbatim>\<open>Sec-WebSocket-Protocol\<close> response header is
  the chosen piece, and is left as it was (omitted) if none is chosen; the socket, if
  hijacking succeeds, carries the chosen piece as its protocol.
\<close>

theorem C8_handle_negotiates:
  assumes "Contains (ToLower (Header request ''Connection'')) ''upgrade''"
    "ToLower (Header request ''Upgrade'') = ''websocket''"
    "Method request = ''GET''"
    "Header request ''Sec-WebSocket-Version'' = ''13''"
    "Header request ''Sec-WebSocket-Key'' \<noteq> []"
    "hijacker response"
    "Protocols c \<noteq> []"
  shows "\<exists>chosen. 
     chosen = negotiate (Protocols c) (Header request ''Sec-WebSocket-Protocol'') \<and>
     length (Split (Header request ''Sec-WebSocket-Protocol'') 10) \<le> 10 \<and>
     chosen =
       (if filter (\<lambda>v. v \<in> set (Protocols c))
             (Split (Header request ''Sec-WebSocket-Protocol'') 10) = [] then []
        else last (filter (\<lambda>v. v \<in> set (Protocols c))
               (Split (Header request ''Sec-WebSocket-Protocol'') 10))) \<and>
     (if chosen = [] \<and> NeedProtocol c
      then Handle accept response request (Some c) =
             Return (True, None, WriteHeader 400 response)
      else (\<exists>ws response'.
              Handle accept response request (Some c) = Return (True, ws, response') \<and>
              statuses response' = statuses response @ [101] \<and>
              headers response' ''Sec-WebSocket-Protocol'' =
                (if chosen = [] then headers response ''Sec-WebSocket-Protocol''
                 else Some chosen) \<and>
              (hijack_ok response \<longrightarrow> (\<exists>sock. ws = Some sock \<and> Protocol sock = chosen))))"
  using assms negotiate_last [of "Protocols c" "Header request ''Sec-WebSocket-Protocol''"]
    length_Split [of "Header request ''Sec-WebSocket-Protocol''" 10]
  by (auto simp: Handle_def Let_def WriteHeader_def SetHeader_def)

lemma neg_example: "negotiate [''chat'', ''b''] ''a, b, chat, c'' = ''chat''"
  by (simp add: negotiate_def Split_def is_sep_def Let_def)

theorem C8_handle_negotiates_witness:
  "Contains (ToLower (Header (upgrade_request ''a, b, chat, c'') ''Connection'')) ''upgrade'' \<and>
   ToLower (Header (upgrade_request ''a, b, chat, c'') ''Upgrade'') = ''websocket'' \<and>
   Method (upgrade_request ''a, b, chat, c'') = ''GET'' \<and>
   Header (upgrade_request ''a, b, chat, c'') ''Sec-WebSocket-Version'' = ''13'' \<and>
   Header (upgrade_request ''a, b, chat, c'') ''Sec-WebSocket-Key'' \<noteq> [] \<and>
   hijacker fresh_writer \<and>
   Protocols (zero_Config\<lparr>Protocols := [''chat'', ''b'']\<rparr>) \<noteq> [] \<and>
   (\<exists>sock response'.
      Handle (\<lambda>ckey. ckey) fresh_writer (upgrade_request ''a, b, chat, c'')
        (Some (zero_Config\<lparr>Protocols := [''chat'', ''b'']\<rparr>)) =
        Return (True, Some sock, response') \<and>
      Protocol sock = ''chat'' \<and>
      statuses response' = [101] \<and>
      headers response' ''Sec-WebSocket-Protocol'' = Some ''chat'')"
proof -
  have p: "Protocols (zero_Config\<lparr>Protocols := [''chat'', ''b'']\<rparr>) \<noteq> []"
    by simp
  have h: "Header (upgrade_request ''a, b, chat, c'') ''Sec-WebSocket-Protocol'' = ''a, b, chat, c''"
    by (simp add: upgrade_request_def)
  have w: "hijack_ok fresh_writer" "statuses fresh_writer = []"
    by (simp_all add: fresh_writer_def)
  from C8_handle_negotiates [OF req_valid p, of "''a, b, chat, c''" "\<lambda>ckey. ckey"]
  have "\<exists>ws response'.
              Handle (\<lambda>ckey. ckey) fresh_writer (upgrade_request ''a, b, chat, c'')
                (Some (zero_Config\<lparr>Protocols := [''chat'', ''b'']\<rparr>)) =
                Return (True, ws, response') \<and>
              statuses response' = statuses fresh_writer @ [101] \<and>
              headers response' ''Sec-WebSocket-Protocol'' = Some ''chat'' \<and>
              (hijack_ok fresh_writer \<longrightarrow> (\<exists>sock. ws = Some sock \<and> Protocol sock = ''chat''))"
    by (simp add: h neg_example)
  then show ?thesis
    using req_valid p w by auto
qed


text \<open>
  Claim C8 as stated fails when the client offers more than ten values: of the
  eleven values \<^verbatim>\<open>a, b, c, d, e, f, g, h, i, j, chat\<close> the last one is in the server's
  list \<^verbatim>\<open>[chat]\<close>, but \<^verbatim>\<open>Split(header, 10)\<close> ends with the piece \<^verbatim>\<open>j, chat\<close>, nothing is
  negotiated and the response header is omitted.
\<close>

theorem C8_split_limit_counterexample:
  "Split ''a, b, c, d, e, f, g, h, i, j, chat'' 11 =
     [''a'', ''b'', ''c'', ''d'', ''e'', ''f'', ''g'', ''h'', ''i'', ''j'', ''chat''] \<and>
   Split ''a, b, c, d, e, f, g, h, i, j, chat'' 10 =
     [''a'', ''b'', ''c'', ''d'', ''e'', ''f'', ''g'', ''h'', ''i'', ''j, chat''] \<and>
   negotiate [''chat''] ''a, b, c, d, e, f, g, h, i, j, chat'' = [] \<and>
   (\<exists>sock response'.
      Handle (\<lambda>ckey. ckey) fresh_writer (upgrade_request ''a, b, c, d, e, f, g, h, i, j, chat'')
        (Some (zero_Config\<lparr>Protocols := [''chat'']\<rparr>)) =
        Return (True, Some sock, response') \<and>
      Protocol sock = [] \<and>
      statuses response' = [101] \<and>
      headers response' ''Sec-WebSocket-Protocol'' = None)"
proof -
  have s11: "Split ''a, b, c, d, e, f, g, h, i, j, chat'' 11 =
     [''a'', ''b'', ''c'', ''d'', ''e'', ''f'', ''g'', ''h'', ''i'', ''j'', ''chat'']"
    by (simp add: Split_def is_sep_def)
  have s10: "Split ''a, b, c, d, e, f, g, h, i, j, chat'' 10 =
     [''a'', ''b'', ''c'', ''d'', ''e'', ''f'', ''g'', ''h'', ''i'', ''j, chat'']"
    by (simp add: Split_def is_sep_def)
  have n: "negotiate [''chat''] ''a, b, c, d, e, f, g, h, i, j, chat'' = []"
    by (simp add: negotiate_def s10 Let_def)
  have h: "Header (upgrade_request ''a, b, c, d, e, f, g, h, i, j, chat'') ''Sec-WebSocket-Protocol'' =
      ''a, b, c, d, e, f, g, h, i, j, chat''"
    by (simp add: upgrade_request_def)
  have run: "\<exists>sock response'.
      Handle (\<lambda>ckey. ckey) fresh_writer (upgrade_request ''a, b, c, d, e, f, g, h, i, j, chat'')
        (Some (zero_Config\<lparr>Protocols := [''chat'']\<rparr>)) =
        Return (True, Some sock, response') \<and>
      Protocol sock = [] \<and>
      statuses response' = [101] \<and>
      headers response' ''Sec-WebSocket-Protocol'' = None"
    using req_valid
    by (simp add: Handle_def h n Let_def zero_Config_def)
      (simp add: fresh_writer_def WriteHeader_def SetHeader_def)
  from s11 s10 n run show ?thesis by blast
qed


section \<open>Verification: the receive loop\<close>

text \<open>Comparisons and bit tests on the bytes of a header.\<close>

lemma op_range: "((op :: byte) \<ge> 8 \<and> op \<le> 10) \<longleftrightarrow> (op = 8 \<or> op = 9 \<or> op = 10)"
  by (simp add: word_unat_eq_iff word_less_nat_alt word_le_nat_alt) arith

lemma op_unknown:
  "((op :: byte) \<noteq> 0 \<and> op \<noteq> 1 \<and> op \<noteq> 2 \<and> (op < 8 \<or> op > 10)) \<longleftrightarrow>
   op \<notin> {0, 1, 2, 8, 9, 10}"
  by (simp add: word_unat_eq_iff word_less_nat_alt word_le_nat_alt) arith

lemma high_bit: "bit (b :: byte) (7 + n) \<longleftrightarrow> n = 0 \<and> bit b 7"
proof (cases n)
  case 0
  then show ?thesis by simp
next
  case (Suc m)
  then have "\<not> 7 + n < LENGTH(8)" by simp
  then have "\<not> bit b (7 + n)" using bit_imp_le_length by blast
  then show ?thesis using Suc by simp
qed

lemma fin_bit0: "drop_bit 7 (b :: byte) = 0 \<longleftrightarrow> \<not> bit b 7"
proof
  assume "drop_bit 7 b = 0"
  then have "\<not> bit (drop_bit 7 b) 0" by simp
  then show "\<not> bit b 7" by (simp add: bit_simps)
next
  assume h: "\<not> bit b 7"
  show "drop_bit 7 b = 0"
    by (rule bit_word_eqI) (simp add: bit_simps high_bit h)
qed


lemma bit_0x80: "bit (0x80 :: byte) n \<longleftrightarrow> n = 7"
proof -
  have "bit (push_bit 7 (1::byte)) n \<longleftrightarrow> n = 7"
    unfolding bit_push_bit_iff bit_1_iff by auto
  then show ?thesis by simp
qed

lemma mask_bit: "(b :: byte) AND 0x80 = 0 \<longleftrightarrow> \<not> bit b 7"
proof
  assume "b AND 0x80 = 0"
  then have "\<not> bit (b AND 0x80) 7" by simp
  then show "\<not> bit b 7" by (simp add: bit_and_iff bit_0x80)
next
  assume h: "\<not> bit b 7"
  show "b AND 0x80 = 0"
  proof (rule bit_word_eqI)
    fix n
    show "bit (b AND 0x80) n = bit (0 :: byte) n"
      using h by (cases "n = 7") (simp_all only: bit_and_iff bit_0x80 bit_0_eq, simp_all)
  qed
qed

text \<open>The protocol check of lines 487 to 489 is the one of the specification.\<close>

lemma violation_spec: "violation cl b0 b1 = spec_violation cl b0 b1"
  unfolding violation_def spec_violation_def Let_def fin_bit0 mask_bit op_range op_unknown
  by auto

text \<open>
  The header half of a pass: with which code it leaves the loop, and what it leaves
  untouched.
\<close>

lemma latch_length_cong:
  "latch_length cl (st\<lparr>dmode := d, dlast := e\<rparr>) = latch_length cl st"
  by (simp add: latch_length_def Let_def)


lemma header_latch_code:
  "header_latch ms cl st1 = HClose st' \<Longrightarrow> rcode st' = 1009"
  by (cases "latch_length cl st1")
    (auto simp: header_latch_def Let_def latch_length_cong split: if_splits)

lemma header_close_1002:
  assumes "fsize st < 0" "woffset st - roffset st \<ge> 2" "0 \<le> roffset st"
    "woffset st \<le> int (length (buffer st))"
  shows "(\<exists>st'. header_part ms cl st = HClose st' \<and> rcode st' = 1002) \<longleftrightarrow>
         violation cl (buffer st ! nat (roffset st)) (buffer st ! nat (roffset st + 1))"
proof (cases "violation cl (buffer st ! nat (roffset st)) (buffer st ! nat (roffset st + 1))")
  case True
  then show ?thesis using assms by (simp add: header_part_def Let_def)
next
  case False
  then show ?thesis using assms
    by (auto simp: header_part_def Let_def dest: header_latch_code)
qed


text \<open>
  The payload half of a pass for a data frame: unmasking keeps the length, the only
  exits are \<^verbatim>\<open>OVERSIZED\<close> and \<^verbatim>\<open>INVALID\<close>, and the reassembly buffer stays within
  \<^verbatim>\<open>MessageSize\<close>.
\<close>

lemma xor_tail_length:
  "xor_tail msk d i off = Some x \<Longrightarrow> length x = length d"
proof (induction msk d i off rule: xor_tail.induct)
  case (1 msk data index offset)
  from "1.prems" show ?case
    by (subst (asm) xor_tail.simps) (auto split: if_splits dest: "1.IH")
qed

lemma xor_slice_length:
  assumes "xor_slice msk d = Some x"
  shows "length x = length d"
proof (cases "length d \<ge> xorsize")
  case False
  then show ?thesis using assms by (auto simp: xor_slice_def dest: xor_tail_length)
next
  case True
  define v where "v = map (\<lambda>index. msk ! (index mod 4)) [0..<xorsize]"
  have lv: "length v = 8" by (simp add: v_def xorsize_def)
  have "length (xor_words (load_uintptr v) d 0 ((length d div xorsize) * xorsize)) = length d"
    using xor_words_nth [OF lv, of 0 "(length d div 8) * 8" d]
    by (simp add: xorsize_def)
  then show ?thesis
    using assms True
    by (auto simp: xor_slice_def v_def [symmetric] split: if_splits dest: xor_tail_length)
qed

lemma unmask_data_length:
  assumes "unmask_data cl st1 d1 = Some d2" "dsize st1 \<le> int (length d1)"
  shows "length d2 = length d1"
proof (cases cl)
  case True
  then show ?thesis using assms by (simp add: unmask_data_def)
next
  case False
  with assms obtain x where x: "0 \<le> doffset st1" "doffset st1 \<le> dsize st1"
    "xor_slice (fmask st1) (take (nat (dsize st1 - doffset st1)) (drop (nat (doffset st1)) d1)) = Some x"
    "d2 = splice d1 (nat (doffset st1)) (nat (dsize st1 - doffset st1)) x"
    by (auto simp: unmask_data_def split: if_splits)
  have "nat (doffset st1) + nat (dsize st1 - doffset st1) \<le> length d1"
    using x(1,2) assms(2) by linarith
  moreover from this have "length x = nat (dsize st1 - doffset st1)"
    using xor_slice_length [OF x(3)] by simp
  ultimately show ?thesis
    by (simp add: x(4) splice_def)
qed

lemma data_complete_code:
  "data_complete c u st1 d1 s = PClose r \<Longrightarrow> rcode (fst r) = 1007"
  by (auto simp: data_complete_def split: option.splits if_splits)

lemma data_complete_assembled:
  assumes "dsize st1 \<le> int (length d1)" "int (length d1) \<le> ms"
    "data_complete c u st1 d1 s = PClose (st', s') \<or> data_complete c u st1 d1 s = PNext (st', s')"
  shows "assembled st' \<le> ms"
proof -
  have "0 \<le> ms" using assms(2) by simp
  then show ?thesis
    using assms unmask_data_length [of "client s" st1 d1]
    by (auto simp: data_complete_def assembled_def slice_of_def split: option.splits if_splits)
qed


lemma data_part_assembled:
  assumes "assembled st \<le> MessageSize c"
    "data_part c u st s = PClose (st', s') \<or> data_part c u st s = PNext (st', s')"
  shows "assembled st' \<le> MessageSize c"
proof (cases "assembled st + min (woffset st - roffset st) (fsize st) > MessageSize c")
  case True
  then show ?thesis using assms
    by (auto simp: data_part_def assembled_def Let_def slice_of_def)
next
  case False
  define mx where "mx = min (woffset st - roffset st) (fsize st)"
  define d1 where "d1 = slice_of (rdata st) @ take (nat mx) (drop (nat (roffset st)) (buffer st))"
  define st1 where "st1 = st\<lparr>rdata := Some d1, fsize := fsize st - mx, roffset := roffset st + mx\<rparr>"
  have ok: "\<not> (roffset st < 0 \<or> mx < 0 \<or> roffset st + mx > int (length (buffer st)))"
    using assms(2) False
    by (auto simp: data_part_def assembled_def Let_def mx_def split: if_splits)
  have "length (take (nat mx) (drop (nat (roffset st)) (buffer st))) \<le> nat mx"
    by simp
  moreover have "0 \<le> mx"
    using ok by simp
  ultimately have "int (length (take (nat mx) (drop (nat (roffset st)) (buffer st)))) \<le> mx"
    by linarith
  then have "int (length d1) \<le> int (length (slice_of (rdata st))) + mx"
    unfolding d1_def by (simp del: length_take length_drop)
  then have l1: "int (length d1) \<le> MessageSize c"
    using False by (simp add: assembled_def mx_def [symmetric])
  have eq: "data_part c u st s =
      (if fsize st1 \<le> 0 \<and> int (length d1) \<ge> dsize st1
       then data_complete c u st1 d1 s else PNext (st1, s))"
    unfolding data_part_def Let_def mx_def [symmetric] d1_def [symmetric] st1_def [symmetric]
    using False ok by (simp only: assembled_def mx_def [symmetric] if_False)
  show ?thesis
  proof (cases "fsize st1 \<le> 0 \<and> int (length d1) \<ge> dsize st1")
    case True
    then have "data_part c u st s = data_complete c u st1 d1 s"
      unfolding eq by (simp only: if_True simp_thms)
    then show ?thesis
      using assms(2) data_complete_assembled [of st1 d1 "MessageSize c" c u s st' s'] l1 True
      by simp
  next
    case False
    then have "data_part c u st s = PNext (st1, s)"
      unfolding eq by (simp only: if_False simp_thms)
    then have "st' = st1" using assms(2) by simp
    then show ?thesis using l1 by (simp add: st1_def assembled_def slice_of_def)
  qed
qed

text \<open>
  What the two halves keep: the header half never touches the reassembly buffer or
  the code (unless it leaves), the control half never touches the reassembly buffer
  and leaves with the code it had or with the code of the peer's CLOSE frame.
\<close>

lemma header_latch_keeps:
  "header_latch ms cl st1 = HNext st' \<or> header_latch ms cl st1 = HBreak st' \<or>
   header_latch ms cl st1 = HClose st' \<Longrightarrow>
     rdata st' = rdata st1 \<and> rcontrol st' = rcontrol st1 \<and> buffer st' = buffer st1"
  by (cases "latch_length cl st1")
    (auto simp: header_latch_def Let_def latch_length_cong split: if_splits)

lemma header_latch_rcode:
  "header_latch ms cl st1 = HNext st' \<or> header_latch ms cl st1 = HBreak st' \<Longrightarrow>
     rcode st' = rcode st1"
  by (cases "latch_length cl st1")
    (auto simp: header_latch_def Let_def latch_length_cong split: if_splits)

lemma header_part_keeps:
  assumes "header_part ms cl st = HNext st' \<or> header_part ms cl st = HBreak st' \<or>
   header_part ms cl st = HClose st'"
  shows "rdata st' = rdata st \<and> rcontrol st' = rcontrol st \<and> buffer st' = buffer st"
proof (cases "fsize st < 0 \<and> woffset st - roffset st \<ge> 2")
  case False
  then show ?thesis using assms by (auto simp: header_part_def split: if_splits)
next
  case True
  define st1 where "st1 = st\<lparr>fin := drop_bit 7 (buffer st ! nat (roffset st)),
      opcode := buffer st ! nat (roffset st) AND 0x0f,
      fsize := uint (buffer st ! nat (roffset st + 1) AND 0x7f)\<rparr>"
  have k: "rdata st1 = rdata st" "rcontrol st1 = rcontrol st" "buffer st1 = buffer st"
    by (simp_all add: st1_def)
  from assms True
  have "st' = st1\<lparr>rcode := 1002\<rparr> \<or>
        header_latch ms cl st1 = HNext st' \<or> header_latch ms cl st1 = HBreak st' \<or>
        header_latch ms cl st1 = HClose st'"
    unfolding header_part_def Let_def st1_def [symmetric]
    by (auto split: if_splits)
  then show ?thesis
    using header_latch_keeps [of ms cl st1 st'] k by auto
qed

lemma header_part_rcode:
  assumes "header_part ms cl st = HNext st' \<or> header_part ms cl st = HBreak st'"
  shows "rcode st' = rcode st"
proof (cases "fsize st < 0 \<and> woffset st - roffset st \<ge> 2")
  case False
  then show ?thesis using assms by (auto simp: header_part_def split: if_splits)
next
  case True
  define st1 where "st1 = st\<lparr>fin := drop_bit 7 (buffer st ! nat (roffset st)),
      opcode := buffer st ! nat (roffset st) AND 0x0f,
      fsize := uint (buffer st ! nat (roffset st + 1) AND 0x7f)\<rparr>"
  have k: "rcode st1 = rcode st"
    by (simp add: st1_def)
  from assms True
  have "header_latch ms cl st1 = HNext st' \<or> header_latch ms cl st1 = HBreak st'"
    unfolding header_part_def Let_def st1_def [symmetric]
    by (auto split: if_splits)
  then show ?thesis
    using header_latch_rcode [of ms cl st1 st'] k by auto
qed

lemma header_part_close:
  assumes "header_part ms cl st = HClose st'"
  shows "rcode st' = 1009 \<or>
         (rcode st' = 1002 \<and> fsize st < 0 \<and> woffset st - roffset st \<ge> 2 \<and>
          violation cl (buffer st ! nat (roffset st)) (buffer st ! nat (roffset st + 1)))"
proof (cases "fsize st < 0 \<and> woffset st - roffset st \<ge> 2")
  case False
  then show ?thesis using assms by (auto simp: header_part_def split: if_splits)
next
  case True
  define st1 where "st1 = st\<lparr>fin := drop_bit 7 (buffer st ! nat (roffset st)),
      opcode := buffer st ! nat (roffset st) AND 0x0f,
      fsize := uint (buffer st ! nat (roffset st + 1) AND 0x7f)\<rparr>"
  from assms True
  have "(st' = st1\<lparr>rcode := 1002\<rparr> \<and>
          violation cl (buffer st ! nat (roffset st)) (buffer st ! nat (roffset st + 1))) \<or>
        header_latch ms cl st1 = HClose st'"
    unfolding header_part_def Let_def st1_def [symmetric]
    by (auto split: if_splits)
  then show ?thesis
    using header_latch_code [of ms cl st1 st'] True by auto
qed

lemma header_part_violation:
  assumes "fsize st < 0" "woffset st - roffset st \<ge> 2" "0 \<le> roffset st"
    "woffset st \<le> int (length (buffer st))"
    "violation cl (buffer st ! nat (roffset st)) (buffer st ! nat (roffset st + 1))"
  shows "header_part ms cl st =
     HClose (st\<lparr>fin := drop_bit 7 (buffer st ! nat (roffset st)),
                opcode := buffer st ! nat (roffset st) AND 0x0f,
                fsize := uint (buffer st ! nat (roffset st + 1) AND 0x7f),
                rcode := 1002\<rparr>)"
  using assms by (simp add: header_part_def Let_def)

lemma pong_close:
  "pong env st1 c2 s = PClose (st', s') \<Longrightarrow>
     rcode st' = rcode st1 \<and> rdata st' = rdata st1"
  by (auto simp: pong_def split: outcome.splits prod.splits if_splits)

lemma pong_next:
  "pong env st1 c2 s = PNext (st', s') \<Longrightarrow>
     rcode st' = rcode st1 \<and> rdata st' = rdata st1"
  by (auto simp: pong_def split: outcome.splits prod.splits if_splits)

lemma control_complete_close:
  assumes "control_complete env st1 c1 s = PClose (st', s')"
  shows "rdata st' = rdata st1 \<and>
     (rcode st' = rcode st1 \<or>
      (opcode st' = 8 \<and>
       (\<exists>p. rcontrol st' = Some p \<and> 2 \<le> length p \<and> rcode st' = be_uint (take 2 p))))"
proof (cases "if client s then Some c1 else xor_slice (fmask st1) c1")
  case None
  then show ?thesis using assms by (simp add: control_complete_def)
next
  case (Some c2)
  show ?thesis
  proof (cases "opcode st1 = 8")
    case True
    then show ?thesis using assms Some
      by (cases "2 \<le> length c2") (auto simp: control_complete_def)
  next
    case False
    then show ?thesis using assms Some pong_close [of env st1 c2 s st' s']
      by (auto simp: control_complete_def split: if_splits)
  qed
qed

lemma control_complete_next:
  assumes "control_complete env st1 c1 s = PNext (st', s')"
  shows "rdata st' = rdata st1 \<and> rcode st' = rcode st1"
proof (cases "if client s then Some c1 else xor_slice (fmask st1) c1")
  case None
  then show ?thesis using assms by (simp add: control_complete_def)
next
  case (Some c2)
  then show ?thesis using assms pong_next [of env st1 c2 s st' s']
    by (auto simp: control_complete_def split: if_splits)
qed

lemma control_part_close:
  assumes "control_part env st s = PClose (st', s')"
  shows "rdata st' = rdata st \<and>
     (rcode st' = rcode st \<or>
      (opcode st' = 8 \<and>
       (\<exists>p. rcontrol st' = Some p \<and> 2 \<le> length p \<and> rcode st' = be_uint (take 2 p))))"
proof -
  define mx where "mx = min (woffset st - roffset st) (fsize st)"
  define c1 where "c1 = slice_of (rcontrol st) @ take (nat mx) (drop (nat (roffset st)) (buffer st))"
  define st1 where "st1 = st\<lparr>rcontrol := Some c1, fsize := fsize st - mx,
                       roffset := roffset st + mx\<rparr>"
  have k: "rdata st1 = rdata st" "rcode st1 = rcode st"
    by (simp_all add: st1_def)
  from assms have "control_complete env st1 c1 s = PClose (st', s')"
    unfolding control_part_def Let_def mx_def [symmetric] c1_def [symmetric]
      st1_def [symmetric]
    by (auto split: if_splits)
  from control_complete_close [OF this] show ?thesis
    by (simp only: k)
qed

lemma control_part_next:
  assumes "control_part env st s = PNext (st', s')"
  shows "rdata st' = rdata st \<and> rcode st' = rcode st"
proof -
  define mx where "mx = min (woffset st - roffset st) (fsize st)"
  define c1 where "c1 = slice_of (rcontrol st) @ take (nat mx) (drop (nat (roffset st)) (buffer st))"
  define st1 where "st1 = st\<lparr>rcontrol := Some c1, fsize := fsize st - mx,
                       roffset := roffset st + mx\<rparr>"
  have k: "rdata st1 = rdata st" "rcode st1 = rcode st"
    by (simp_all add: st1_def)
  from assms have "control_complete env st1 c1 s = PNext (st', s') \<or> st' = st1"
    unfolding control_part_def Let_def mx_def [symmetric] c1_def [symmetric]
      st1_def [symmetric]
    by (auto split: if_splits)
  then show ?thesis
    using control_complete_next [of env st1 c1 s st' s'] k by auto
qed

lemma data_complete_next:
  "data_complete c u st1 d1 s = PNext (st', s') \<Longrightarrow> rcode st' = rcode st1"
  by (auto simp: data_complete_def split: option.splits if_splits)

lemma data_part_code:
  assumes "data_part c u st s = PClose (st', s')"
  shows "rcode st' = 1009 \<or> rcode st' = 1007"
proof (cases "assembled st + min (woffset st - roffset st) (fsize st) > MessageSize c")
  case True
  then show ?thesis using assms by (auto simp: data_part_def assembled_def Let_def)
next
  case False
  then show ?thesis using assms
    by (auto simp: data_part_def assembled_def Let_def split: if_splits
        dest: data_complete_code)
qed

lemma data_part_next:
  assumes "data_part c u st s = PNext (st', s')"
  shows "rcode st' = rcode st"
proof -
  define mx where "mx = min (woffset st - roffset st) (fsize st)"
  define d1 where "d1 = slice_of (rdata st) @ take (nat mx) (drop (nat (roffset st)) (buffer st))"
  define st1 where "st1 = st\<lparr>rdata := Some d1, fsize := fsize st - mx, roffset := roffset st + mx\<rparr>"
  have k: "rcode st1 = rcode st"
    by (simp add: st1_def)
  from assms have "data_complete c u st1 d1 s = PNext (st', s') \<or> st' = st1"
    unfolding data_part_def Let_def mx_def [symmetric] d1_def [symmetric]
      st1_def [symmetric]
    by (auto split: if_splits)
  then show ?thesis
    using data_complete_next [of c u st1 d1 s st' s'] k by auto
qed

lemma payload_part_next:
  "payload_part c u env st s = PNext (st', s') \<Longrightarrow> rcode st' = rcode st"
  by (auto simp: payload_part_def split: if_splits dest: data_part_next control_part_next)

lemma payload_part_close:
  assumes "payload_part c u env st s = PClose (st', s')"
  shows "rcode st' = 1009 \<or> rcode st' = 1007 \<or> rcode st' = rcode st \<or>
      (opcode st' = 8 \<and>
       (\<exists>p. rcontrol st' = Some p \<and> 2 \<le> length p \<and> rcode st' = be_uint (take 2 p)))"
  using assms data_part_code [of c u st s st' s'] control_part_close [of env st s st' s']
  by (auto simp: payload_part_def split: if_splits)

text \<open>One pass of the inner loop.\<close>

lemma frame_step_close_cases:
  assumes "frame_step c u env st s = BreakClose (st', s')"
  shows "(header_part (MessageSize c) (client s) st = HClose st' \<and> s' = s) \<or>
         (\<exists>st1. header_part (MessageSize c) (client s) st = HNext st1 \<and>
                payload_part c u env st1 s = PClose (st', s'))"
  using assms
  by (auto simp: frame_step_def split: hresult.splits presult.splits prod.splits if_splits)

lemma frame_step_on_cases:
  assumes "frame_step c u env st s = Continue (st', s') \<or>
           frame_step c u env st s = BreakInner (st', s')"
  shows "(header_part (MessageSize c) (client s) st = HBreak st' \<and> s' = s) \<or>
         (\<exists>st1 st2. header_part (MessageSize c) (client s) st = HNext st1 \<and>
                payload_part c u env st1 s = PNext (st2, s') \<and>
                (st' = st2 \<or> st' = st2\<lparr>roffset := 0, woffset := 0\<rparr>))"
  using assms
  by (auto simp: frame_step_def split: hresult.splits presult.splits prod.splits if_splits)

lemma frame_step_rcode:
  assumes "frame_step c u env st s = Continue (st', s') \<or>
           frame_step c u env st s = BreakInner (st', s')"
  shows "rcode st' = rcode st"
  using frame_step_on_cases [OF assms]
    header_part_rcode [of "MessageSize c" "client s" st]
  by (auto dest!: payload_part_next)

lemma frame_step_violation:
  assumes "fsize st < 0" "woffset st - roffset st \<ge> 2" "0 \<le> roffset st"
    "woffset st \<le> int (length (buffer st))"
    "violation (client s) (buffer st ! nat (roffset st)) (buffer st ! nat (roffset st + 1))"
  shows "frame_step c u env st s =
     BreakClose (st\<lparr>fin := drop_bit 7 (buffer st ! nat (roffset st)),
                    opcode := buffer st ! nat (roffset st) AND 0x0f,
                    fsize := uint (buffer st ! nat (roffset st + 1) AND 0x7f),
                    rcode := 1002\<rparr>, s)"
  by (simp add: frame_step_def header_part_violation [OF assms])

lemma frame_step_1002:
  assumes "frame_step c u env st s = BreakClose (st', s')" "rcode st' = 1002"
    "rcode st \<noteq> 1002"
  shows "(fsize st < 0 \<and> woffset st - roffset st \<ge> 2 \<and>
          violation (client s) (buffer st ! nat (roffset st)) (buffer st ! nat (roffset st + 1))) \<or>
         (opcode st' = 8 \<and>
          (\<exists>p. rcontrol st' = Some p \<and> 2 \<le> length p \<and> be_uint (take 2 p) = 1002))"
proof -
  from frame_step_close_cases [OF assms(1)]
  consider "header_part (MessageSize c) (client s) st = HClose st'"
    | st1 where "header_part (MessageSize c) (client s) st = HNext st1"
        "payload_part c u env st1 s = PClose (st', s')"
    by blast
  then show ?thesis
  proof cases
    case 1
    from header_part_close [OF 1] assms(2) show ?thesis by auto
  next
    case 2
    from header_part_rcode [of "MessageSize c" "client s" st st1] 2(1)
    have "rcode st1 = rcode st" by simp
    with payload_part_close [OF 2(2)] assms(2,3) show ?thesis by auto
  qed
qed

text \<open>
  The loops: the code stays as it was until a pass leaves with \<^verbatim>\<open>break close\<close>, and
  the reassembly buffer stays within \<^verbatim>\<open>MessageSize\<close>.
\<close>

lemma inner_loop_rcode:
  "inner_loop n c u env st s = BreakInner (st', s') \<Longrightarrow> rcode st' = rcode st"
proof (induction n arbitrary: st s)
  case 0
  then show ?case by simp
next
  case (Suc n)
  show ?case
  proof (cases "frame_step c u env st s")
    case (Continue r)
    obtain st1 s1 where r: "r = (st1, s1)" by (cases r)
    from Suc.prems Continue r have "inner_loop n c u env st1 s1 = BreakInner (st', s')"
      by simp
    from Suc.IH [OF this] frame_step_rcode [of c u env st s st1 s1] Continue r
    show ?thesis by simp
  next
    case (BreakInner r)
    with Suc.prems frame_step_rcode [of c u env st s st' s'] show ?thesis by simp
  qed (use Suc.prems in simp_all)
qed

lemma inner_loop_close:
  "inner_loop n c u env st s = BreakClose r \<Longrightarrow>
     \<exists>st0 s0. rcode st0 = rcode st \<and> frame_step c u env st0 s0 = BreakClose r"
proof (induction n arbitrary: st s)
  case 0
  then show ?case by simp
next
  case (Suc n)
  show ?case
  proof (cases "frame_step c u env st s")
    case (Continue q)
    obtain st1 s1 where q: "q = (st1, s1)" by (cases q)
    from Suc.prems Continue q have "inner_loop n c u env st1 s1 = BreakClose r"
      by simp
    from Suc.IH [OF this] frame_step_rcode [of c u env st s st1 s1] Continue q
    show ?thesis by simp
  next
    case (BreakClose q)
    with Suc.prems show ?thesis by auto
  qed (use Suc.prems in simp_all)
qed

lemma payload_part_assembled:
  assumes "assembled st \<le> MessageSize c"
    "payload_part c u env st s = PClose (st', s') \<or> payload_part c u env st s = PNext (st', s')"
  shows "assembled st' \<le> MessageSize c"
proof (cases "fsize st \<ge> 0")
  case False
  then show ?thesis using assms by (auto simp: payload_part_def)
next
  case True
  show ?thesis
  proof (cases "dmode st \<noteq> 0")
    case True
    with \<open>fsize st \<ge> 0\<close> assms(2)
    have "data_part c u st s = PClose (st', s') \<or> data_part c u st s = PNext (st', s')"
      by (simp add: payload_part_def)
    from data_part_assembled [OF assms(1) this] show ?thesis .
  next
    case False
    with \<open>fsize st \<ge> 0\<close> assms(2)
    have "control_part env st s = PClose (st', s') \<or> control_part env st s = PNext (st', s')"
      by (simp add: payload_part_def)
    then have "rdata st' = rdata st"
      using control_part_close [of env st s st' s'] control_part_next [of env st s st' s']
      by blast
    then show ?thesis using assms(1) by (simp add: assembled_def)
  qed
qed

lemma frame_step_assembled:
  assumes "assembled st \<le> MessageSize c"
    "frame_step c u env st s = Continue (st', s') \<or>
     frame_step c u env st s = BreakInner (st', s') \<or>
     frame_step c u env st s = BreakClose (st', s')"
  shows "assembled st' \<le> MessageSize c"
proof -
  have h: "assembled x \<le> MessageSize c"
    if "header_part (MessageSize c) (client s) st = HNext x \<or>
        header_part (MessageSize c) (client s) st = HBreak x \<or>
        header_part (MessageSize c) (client s) st = HClose x" for x
    using header_part_keeps [OF that] assms(1) by (simp add: assembled_def)
  from assms(2) consider
      "header_part (MessageSize c) (client s) st = HClose st'"
    | "header_part (MessageSize c) (client s) st = HBreak st'"
    | st1 where "header_part (MessageSize c) (client s) st = HNext st1"
        "payload_part c u env st1 s = PClose (st', s')"
    | st1 st2 where "header_part (MessageSize c) (client s) st = HNext st1"
        "payload_part c u env st1 s = PNext (st2, s')"
        "st' = st2 \<or> st' = st2\<lparr>roffset := 0, woffset := 0\<rparr>"
    using frame_step_close_cases [of c u env st s st' s']
      frame_step_on_cases [of c u env st s st' s'] by blast
  then show ?thesis
  proof cases
    case 1
    then show ?thesis using h by blast
  next
    case 2
    then show ?thesis using h by blast
  next
    case 3
    from payload_part_assembled [of st1 c u env s st' s'] h [of st1] 3
    show ?thesis by blast
  next
    case 4
    from payload_part_assembled [of st1 c u env s st2 s'] h [of st1] 4(1,2)
    have "assembled st2 \<le> MessageSize c" by blast
    with 4(3) show ?thesis by (auto simp: assembled_def)
  qed
qed

lemma inner_loop_assembled:
  "assembled st \<le> MessageSize c \<Longrightarrow>
   inner_loop n c u env st s = Continue (st', s') \<or>
   inner_loop n c u env st s = BreakInner (st', s') \<or>
   inner_loop n c u env st s = BreakClose (st', s') \<Longrightarrow>
   assembled st' \<le> MessageSize c"
proof (induction n arbitrary: st s)
  case 0
  then show ?case by simp
next
  case (Suc n)
  show ?case
  proof (cases "frame_step c u env st s")
    case (Continue q)
    obtain st1 s1 where q: "q = (st1, s1)" by (cases q)
    have a: "assembled st1 \<le> MessageSize c"
      using frame_step_assembled [OF Suc.prems(1), of u env s st1 s1] Continue q by simp
    from Suc.prems(2) Continue q
    have "inner_loop n c u env st1 s1 = Continue (st', s') \<or>
          inner_loop n c u env st1 s1 = BreakInner (st', s') \<or>
          inner_loop n c u env st1 s1 = BreakClose (st', s')"
      by simp
    from Suc.IH [OF a this] show ?thesis .
  next
    case (BreakInner q)
    with Suc.prems(2) have "frame_step c u env st s = BreakInner (st', s')" by simp
    with frame_step_assembled [OF Suc.prems(1), of u env s st' s'] show ?thesis by simp
  next
    case (BreakClose q)
    with Suc.prems(2) have "frame_step c u env st s = BreakClose (st', s')" by simp
    with frame_step_assembled [OF Suc.prems(1), of u env s st' s'] show ?thesis by simp
  qed (use Suc.prems in simp_all)
qed

lemma after_read_state:
  "after_read c env n err st s = Again (st', s') \<or>
   after_read c env n err st s = Leave (st', s') \<Longrightarrow> st' = st"
  by (auto simp: after_read_def split: if_splits outcome.splits prod.splits iter.splits)

lemma compact_keeps:
  "compact st = Some st1 \<Longrightarrow> rdata st1 = rdata st \<and> rcode st1 = rcode st"
  by (auto simp: compact_def split: if_splits)

lemma receive_iter_assembled:
  assumes "assembled st \<le> MessageSize c"
    "receive_iter n c u env ev st s = Again (st', s') \<or>
     receive_iter n c u env ev st s = Leave (st', s')"
  shows "assembled st' \<le> MessageSize c"
proof -
  from assms(2) obtain st1 where st1: "compact st = Some st1"
    by (cases "compact st") (auto simp: receive_iter_def)
  have a1: "assembled st1 \<le> MessageSize c"
    using compact_keeps [OF st1] assms(1) by (simp add: assembled_def)
  define s1 where "s1 = read_deadline c env s"
  define bytes where "bytes = take (length (buffer st1) - nat (woffset st1)) (fst ev)"
  define st2 where "st2 = st1\<lparr>seen := now_at env (tick s1),
                             buffer := take (nat (woffset st1)) (buffer st1) @ bytes @
                                       drop (nat (woffset st1) + length bytes) (buffer st1),
                             woffset := woffset st1 + int (length bytes)\<rparr>"
  have a2: "assembled st2 \<le> MessageSize c"
    using a1 by (simp add: st2_def assembled_def)
  have eq: "receive_iter n c u env ev st s =
     (if woffset st1 < 0 \<or> woffset st1 > int (length (buffer st1)) then IterPanic
      else if length bytes > 0
           then (case inner_loop n c u env st2 (s1\<lparr>tick := tick s1 + 1\<rparr>) of
                    BreakClose r \<Rightarrow> Leave r
                  | BreakInner (st', s') \<Rightarrow> after_read c env (length bytes) (snd ev) st' s'
                  | Continue r \<Rightarrow> IterFuel
                  | StepPanic \<Rightarrow> IterPanic
                  | OutOfFuel \<Rightarrow> IterFuel)
           else after_read c env 0 (snd ev) st1 s1)"
    unfolding receive_iter_def Let_def st1 option.case
    unfolding s1_def [symmetric] bytes_def [symmetric]
    unfolding st2_def [symmetric]
    by (rule refl)
  show ?thesis
  proof (cases "length bytes > 0")
    case False
    with assms(2) eq
    have "after_read c env 0 (snd ev) st1 s1 = Again (st', s') \<or>
          after_read c env 0 (snd ev) st1 s1 = Leave (st', s')"
      by (auto split: if_splits)
    from after_read_state [OF this] a1 show ?thesis by simp
  next
    case True
    show ?thesis
    proof (cases "inner_loop n c u env st2 (s1\<lparr>tick := tick s1 + 1\<rparr>)")
      case (BreakClose r)
      with assms(2) eq True have "r = (st', s')"
        by (auto split: if_splits)
      with BreakClose inner_loop_assembled [OF a2, of n u env "s1\<lparr>tick := tick s1 + 1\<rparr>" st' s']
      show ?thesis by simp
    next
      case (BreakInner r)
      obtain st3 s3 where r: "r = (st3, s3)" by (cases r)
      from BreakInner r
        inner_loop_assembled [OF a2, of n u env "s1\<lparr>tick := tick s1 + 1\<rparr>" st3 s3]
      have a3: "assembled st3 \<le> MessageSize c" by simp
      from assms(2) eq True BreakInner r
      have "after_read c env (length bytes) (snd ev) st3 s3 = Again (st', s') \<or>
            after_read c env (length bytes) (snd ev) st3 s3 = Leave (st', s')"
        by (auto split: if_splits)
      from after_read_state [OF this] a3 show ?thesis by simp
    qed (use assms(2) eq True in \<open>auto split: if_splits\<close>)
  qed
qed

lemma receive_loop_assembled:
  "assembled st \<le> MessageSize c \<Longrightarrow>
   receive_loop n c u env reads st s = Leave (st', s') \<Longrightarrow>
   assembled st' \<le> MessageSize c"
proof (induction reads arbitrary: st s)
  case Nil
  then have "receive_iter n c u env ([], OtherErr) st s = Again (st', s') \<or>
             receive_iter n c u env ([], OtherErr) st s = Leave (st', s')"
    by (auto split: iter.splits)
  from receive_iter_assembled [OF Nil(1) this] show ?case .
next
  case (Cons ev evs)
  show ?case
  proof (cases "receive_iter n c u env ev st s")
    case (Again r)
    obtain st1 s1 where r: "r = (st1, s1)" by (cases r)
    from receive_iter_assembled [OF Cons.prems(1), of n u env ev s st1 s1] Again r
    have a: "assembled st1 \<le> MessageSize c" by simp
    from Cons.prems(2) Again r have "receive_loop n c u env evs st1 s1 = Leave (st', s')"
      by simp
    from Cons.IH [OF a this] show ?thesis .
  next
    case (Leave r)
    with Cons.prems(2) have "receive_iter n c u env ev st s = Leave (st', s')" by simp
    with receive_iter_assembled [OF Cons.prems(1), of n u env ev s st' s'] show ?thesis
      by simp
  qed (use Cons.prems in simp_all)
qed

lemma receive_iter_exit:
  assumes "receive_iter n c u env ev st s = Again (st', s') \<or>
     receive_iter n c u env ev st s = Leave (st', s')"
  shows "rcode st' = rcode st \<or>
     (receive_iter n c u env ev st s = Leave (st', s') \<and>
      (\<exists>st0 s0. rcode st0 = rcode st \<and> frame_step c u env st0 s0 = BreakClose (st', s')))"
proof -
  from assms obtain st1 where st1: "compact st = Some st1"
    by (cases "compact st") (auto simp: receive_iter_def)
  have a1: "rcode st1 = rcode st"
    using compact_keeps [OF st1] by simp
  define s1 where "s1 = read_deadline c env s"
  define bytes where "bytes = take (length (buffer st1) - nat (woffset st1)) (fst ev)"
  define st2 where "st2 = st1\<lparr>seen := now_at env (tick s1),
                             buffer := take (nat (woffset st1)) (buffer st1) @ bytes @
                                       drop (nat (woffset st1) + length bytes) (buffer st1),
                             woffset := woffset st1 + int (length bytes)\<rparr>"
  have a2: "rcode st2 = rcode st"
    using a1 by (simp add: st2_def)
  have eq: "receive_iter n c u env ev st s =
     (if woffset st1 < 0 \<or> woffset st1 > int (length (buffer st1)) then IterPanic
      else if length bytes > 0
           then (case inner_loop n c u env st2 (s1\<lparr>tick := tick s1 + 1\<rparr>) of
                    BreakClose r \<Rightarrow> Leave r
                  | BreakInner (st', s') \<Rightarrow> after_read c env (length bytes) (snd ev) st' s'
                  | Continue r \<Rightarrow> IterFuel
                  | StepPanic \<Rightarrow> IterPanic
                  | OutOfFuel \<Rightarrow> IterFuel)
           else after_read c env 0 (snd ev) st1 s1)"
    unfolding receive_iter_def Let_def st1 option.case
    unfolding s1_def [symmetric] bytes_def [symmetric]
    unfolding st2_def [symmetric]
    by (rule refl)
  show ?thesis
  proof (cases "length bytes > 0")
    case False
    with assms eq
    have "after_read c env 0 (snd ev) st1 s1 = Again (st', s') \<or>
          after_read c env 0 (snd ev) st1 s1 = Leave (st', s')"
      by (auto split: if_splits)
    from after_read_state [OF this] a1 show ?thesis by simp
  next
    case True
    show ?thesis
    proof (cases "inner_loop n c u env st2 (s1\<lparr>tick := tick s1 + 1\<rparr>)")
      case (BreakClose r)
      with assms eq True have r: "r = (st', s')"
          and l: "receive_iter n c u env ev st s = Leave (st', s')"
        by (auto split: if_splits)
      from inner_loop_close [of n c u env st2 "s1\<lparr>tick := tick s1 + 1\<rparr>" r] BreakClose r a2
      have "\<exists>st0 s0. rcode st0 = rcode st \<and> frame_step c u env st0 s0 = BreakClose (st', s')"
        by simp
      with l show ?thesis by blast
    next
      case (BreakInner r)
      obtain st3 s3 where r: "r = (st3, s3)" by (cases r)
      from BreakInner r
        inner_loop_rcode [of n c u env st2 "s1\<lparr>tick := tick s1 + 1\<rparr>" st3 s3] a2
      have a3: "rcode st3 = rcode st" by simp
      from assms eq True BreakInner r
      have "after_read c env (length bytes) (snd ev) st3 s3 = Again (st', s') \<or>
            after_read c env (length bytes) (snd ev) st3 s3 = Leave (st', s')"
        by (auto split: if_splits)
      from after_read_state [OF this] a3 show ?thesis by simp
    qed (use assms eq True in \<open>auto split: if_splits\<close>)
  qed
qed

lemma receive_loop_exit:
  "receive_loop n c u env reads st s = Leave (st', s') \<Longrightarrow>
   rcode st' = rcode st \<or>
   (\<exists>st0 s0. rcode st0 = rcode st \<and> frame_step c u env st0 s0 = BreakClose (st', s'))"
proof (induction reads arbitrary: st s)
  case Nil
  then have "receive_iter n c u env ([], OtherErr) st s = Again (st', s') \<or>
             receive_iter n c u env ([], OtherErr) st s = Leave (st', s')"
    by (auto split: iter.splits)
  from receive_iter_exit [OF this] show ?case by blast
next
  case (Cons ev evs)
  show ?case
  proof (cases "receive_iter n c u env ev st s")
    case (Again r)
    obtain st1 s1 where r: "r = (st1, s1)" by (cases r)
    from receive_iter_exit [of n c u env ev st s st1 s1] Again r
    have a: "rcode st1 = rcode st" by simp
    from Cons.prems Again r have "receive_loop n c u env evs st1 s1 = Leave (st', s')"
      by simp
    from Cons.IH [OF this] a show ?thesis by simp
  next
    case (Leave r)
    with Cons.prems have "receive_iter n c u env ev st s = Leave (st', s')" by simp
    with receive_iter_exit [of n c u env ev st s st' s'] show ?thesis
      by blast
  qed (use Cons.prems in simp_all)
qed

lemma receive_exit:
  assumes "config s = Some c" "receive n u env reads s = Some out"
  shows "out = Panic \<or>
     (\<exists>st' s'. out = Close env (rcode st') s' \<and>
        (0 \<le> MessageSize c \<longrightarrow> assembled st' \<le> MessageSize c) \<and>
        (rcode st' = 0 \<or>
         (\<exists>st0 s0. rcode st0 = 0 \<and> frame_step c u env st0 s0 = BreakClose (st', s'))))"
proof (cases "receive_loop n c u env reads
                  (initial_Recv c (now_at env (tick s))) (s\<lparr>tick := tick s + 1\<rparr>)")
  case (Leave r)
  obtain st' s' where r: "r = (st', s')" by (cases r)
  have i: "rcode (initial_Recv c (now_at env (tick s))) = 0"
    "assembled (initial_Recv c (now_at env (tick s))) = 0"
    by (simp_all add: initial_Recv_def assembled_def slice_of_def)
  from Leave r assms have o: "out = Close env (rcode st') s'"
    by (simp add: receive_def)
  from Leave r have L: "receive_loop n c u env reads
      (initial_Recv c (now_at env (tick s))) (s\<lparr>tick := tick s + 1\<rparr>) = Leave (st', s')"
    by simp
  from receive_loop_exit [OF L] i(1)
  have e: "rcode st' = 0 \<or>
         (\<exists>st0 s0. rcode st0 = 0 \<and> frame_step c u env st0 s0 = BreakClose (st', s'))"
    by simp
  have "assembled st' \<le> MessageSize c" if "0 \<le> MessageSize c"
    using receive_loop_assembled [OF _ L] i(2) that by simp
  with o e show ?thesis by blast
qed (use assms in \<open>simp_all add: receive_def\<close>)

text \<open>
  A run of \<^verbatim>\<open>receive\<close> whose first read starts with a header that violates the
  protocol ends with \<^verbatim>\<open>Close(1002)\<close>.
\<close>

lemma read_deadline_keeps:
  "client (read_deadline c env s) = client s \<and> tick (read_deadline c env s) = tick s + 1"
  by (simp add: read_deadline_def Let_def)

lemma receive_first_violation:
  assumes "config s = Some c" "14 \<le> ReadSize c" "violation (client s) b0 b1"
  shows "receive (Suc n) u env ((b0 # b1 # rest, err) # reads) s =
     Some (Close env 1002
             ((read_deadline c env (s\<lparr>tick := tick s + 1\<rparr>))\<lparr>tick := tick s + 3\<rparr>))"
proof -
  define ev where "ev = (b0 # b1 # rest, err)"
  define st0 where "st0 = initial_Recv c (now_at env (tick s))"
  define s1 where "s1 = read_deadline c env (s\<lparr>tick := tick s + 1\<rparr>)"
  define bytes where "bytes = take (length (buffer st0) - nat (woffset st0)) (fst ev)"
  define st2 where "st2 = st0\<lparr>seen := now_at env (tick s1),
                             buffer := take (nat (woffset st0)) (buffer st0) @ bytes @
                                       drop (nat (woffset st0) + length bytes) (buffer st0),
                             woffset := woffset st0 + int (length bytes)\<rparr>"
  define s3 where "s3 = s1\<lparr>tick := tick s1 + 1\<rparr>"
  have f0: "roffset st0 = 0" "woffset st0 = 0" "fsize st0 = - 1"
    "length (buffer st0) = nat (ReadSize c)"
    by (simp_all add: st0_def initial_Recv_def)
  have bl: "2 \<le> length bytes" "length bytes \<le> length (buffer st0)"
    "bytes ! 0 = b0" "bytes ! 1 = b1"
    using assms(2) by (simp_all add: bytes_def f0 ev_def)
  have cp: "compact st0 = Some st0"
    using assms(2) by (simp add: compact_def f0)
  have eq: "receive_iter (Suc n) c u env ev st0 (s\<lparr>tick := tick s + 1\<rparr>) =
     (if woffset st0 < 0 \<or> woffset st0 > int (length (buffer st0)) then IterPanic
      else if length bytes > 0
           then (case inner_loop (Suc n) c u env st2 s3 of
                    BreakClose r \<Rightarrow> Leave r
                  | BreakInner (st', s') \<Rightarrow> after_read c env (length bytes) (snd ev) st' s'
                  | Continue r \<Rightarrow> IterFuel
                  | StepPanic \<Rightarrow> IterPanic
                  | OutOfFuel \<Rightarrow> IterFuel)
           else after_read c env 0 (snd ev) st0 s1)"
    unfolding receive_iter_def Let_def cp option.case
    unfolding s1_def [symmetric] bytes_def [symmetric]
    unfolding st2_def [symmetric]
    unfolding s3_def [symmetric]
    by (rule refl)
  have f2: "fsize st2 < 0" "woffset st2 - roffset st2 \<ge> 2" "0 \<le> roffset st2"
    "woffset st2 \<le> int (length (buffer st2))"
    "buffer st2 ! nat (roffset st2) = b0" "buffer st2 ! nat (roffset st2 + 1) = b1"
  proof -
    have b: "int (length bytes) \<le> ReadSize c" "bytes \<noteq> []" "0 \<le> ReadSize c"
      "Suc 0 < length bytes"
      using bl(1,2) assms(2) by (auto simp: f0)
    show "fsize st2 < 0" "woffset st2 - roffset st2 \<ge> 2" "0 \<le> roffset st2"
      "woffset st2 \<le> int (length (buffer st2))"
      "buffer st2 ! nat (roffset st2) = b0" "buffer st2 ! nat (roffset st2 + 1) = b1"
      using bl b by (simp_all add: st2_def f0 nth_append)
  qed
  have c3: "client s3 = client s"
    by (simp add: s3_def s1_def read_deadline_keeps)
  have v: "violation (client s3) (buffer st2 ! nat (roffset st2))
             (buffer st2 ! nat (roffset st2 + 1))"
    using assms(3) by (simp only: c3 f2)
  define st' where "st' = st2\<lparr>fin := drop_bit 7 (buffer st2 ! nat (roffset st2)),
                    opcode := buffer st2 ! nat (roffset st2) AND 0x0f,
                    fsize := uint (buffer st2 ! nat (roffset st2 + 1) AND 0x7f),
                    rcode := 1002\<rparr>"
  have fs: "frame_step c u env st2 s3 = BreakClose (st', s3)"
    unfolding st'_def by (rule frame_step_violation [OF f2(1-4) v])
  have il: "inner_loop (Suc n) c u env st2 s3 = BreakClose (st', s3)"
    by (simp add: fs)
  have ri: "receive_iter (Suc n) c u env ev st0 (s\<lparr>tick := tick s + 1\<rparr>) = Leave (st', s3)"
    unfolding eq il using bl(1) by (auto simp: f0)
  have rl: "receive_loop (Suc n) c u env (ev # reads) st0 (s\<lparr>tick := tick s + 1\<rparr>) =
      Leave (st', s3)"
    by (simp only: receive_loop.simps ri iter.case)
  have "receive (Suc n) u env (ev # reads) s = Some (Close env (rcode st') s3)"
    unfolding receive_def using assms(1) rl by (simp add: st0_def)
  moreover have "rcode st' = 1002"
    by (simp add: st'_def)
  moreover have "s3 = s1\<lparr>tick := tick s + 3\<rparr>"
    by (simp add: s3_def s1_def read_deadline_keeps)
  ultimately show ?thesis
    by (simp add: ev_def s1_def)
qed



text \<open>
  Claim C5, as amended.  (1) In a pass of the inner loop that finds no header latched
  and at least two bytes in the window, the header check leaves the loop with the code
  1002 if and only if the two header bytes violate the protocol in one of the four
  ways of the specification; it then leaves through \<^verbatim>\<open>break close\<close>.  (2) A pass
  entered with the code 0 that leaves the loop with the code 1002 either found such a
  violation or completed a CLOSE frame of the peer whose payload carries the code
  1002.  (3) When \<^verbatim>\<open>receive\<close> ends without a panic it calls \<^verbatim>\<open>Close\<close> with the code of
  its last state, which is 0 unless a pass entered with the code 0 left through
  \<^verbatim>\<open>break close\<close>.  (4) A run whose first read starts with a violating header calls
  \<^verbatim>\<open>Close(1002)\<close>.
\<close>

theorem C5_protocol_violation_exit:
  "(fsize st < 0 \<and> 2 \<le> woffset st - roffset st \<and> 0 \<le> roffset st \<and>
    woffset st \<le> int (length (buffer st)) \<longrightarrow>
      ((\<exists>st'. header_part (MessageSize c) (client s) st = HClose st' \<and> rcode st' = 1002) \<longleftrightarrow>
         spec_violation (client s) (buffer st ! nat (roffset st))
           (buffer st ! nat (roffset st + 1))) \<and>
      (spec_violation (client s) (buffer st ! nat (roffset st))
           (buffer st ! nat (roffset st + 1)) \<longrightarrow>
         (\<exists>st'. rcode st' = 1002 \<and>
            inner_loop (Suc n) c u env st s = BreakClose (st', s)))) \<and>
   (rcode st = 0 \<and> frame_step c u env st s = BreakClose (st', s') \<and> rcode st' = 1002 \<longrightarrow>
      (fsize st < 0 \<and> 2 \<le> woffset st - roffset st \<and>
       spec_violation (client s) (buffer st ! nat (roffset st))
         (buffer st ! nat (roffset st + 1))) \<or>
      (opcode st' = 8 \<and>
       (\<exists>p. rcontrol st' = Some p \<and> 2 \<le> length p \<and> be_uint (take 2 p) = 1002))) \<and>
   (config s = Some c \<and> receive n u env reads s = Some out \<longrightarrow>
      out = Panic \<or>
      (\<exists>st' s'. out = Close env (rcode st') s' \<and>
         (rcode st' = 0 \<or>
          (\<exists>st0 s0. rcode st0 = 0 \<and> frame_step c u env st0 s0 = BreakClose (st', s'))))) \<and>
   (config s = Some c \<and> 14 \<le> ReadSize c \<and> spec_violation (client s) ba bb \<longrightarrow>
      receive (Suc n) u env ((ba # bb # rest, err) # reads) s =
        Some (Close env 1002
                ((read_deadline c env (s\<lparr>tick := tick s + 1\<rparr>))\<lparr>tick := tick s + 3\<rparr>)))"
proof -
  have a: "(\<exists>st'. header_part (MessageSize c) (client s) st = HClose st' \<and> rcode st' = 1002) \<longleftrightarrow>
         spec_violation (client s) (buffer st ! nat (roffset st))
           (buffer st ! nat (roffset st + 1))"
    if "fsize st < 0" "2 \<le> woffset st - roffset st" "0 \<le> roffset st"
      "woffset st \<le> int (length (buffer st))"
    using header_close_1002 [OF that] by (simp only: violation_spec)
  have b: "\<exists>st'. rcode st' = 1002 \<and> inner_loop (Suc n) c u env st s = BreakClose (st', s)"
    if "fsize st < 0" "2 \<le> woffset st - roffset st" "0 \<le> roffset st"
      "woffset st \<le> int (length (buffer st))"
      "spec_violation (client s) (buffer st ! nat (roffset st))
           (buffer st ! nat (roffset st + 1))"
  proof -
    from that(5) have "violation (client s) (buffer st ! nat (roffset st))
           (buffer st ! nat (roffset st + 1))"
      by (simp only: violation_spec)
    from frame_step_violation [OF that(1-4) this, of c u env] show ?thesis
      by simp
  qed
  have d: "(fsize st < 0 \<and> 2 \<le> woffset st - roffset st \<and>
       spec_violation (client s) (buffer st ! nat (roffset st))
         (buffer st ! nat (roffset st + 1))) \<or>
      (opcode st' = 8 \<and>
       (\<exists>p. rcontrol st' = Some p \<and> 2 \<le> length p \<and> be_uint (take 2 p) = 1002))"
    if "rcode st = 0" "frame_step c u env st s = BreakClose (st', s')" "rcode st' = 1002"
    using frame_step_1002 [OF that(2,3)] that(1) by (simp only: violation_spec)
  have e: "out = Panic \<or>
      (\<exists>st' s'. out = Close env (rcode st') s' \<and>
         (rcode st' = 0 \<or>
          (\<exists>st0 s0. rcode st0 = 0 \<and> frame_step c u env st0 s0 = BreakClose (st', s'))))"
    if "config s = Some c" "receive n u env reads s = Some out"
    using receive_exit [OF that] by blast
  have f: "receive (Suc n) u env ((ba # bb # rest, err) # reads) s =
        Some (Close env 1002
                ((read_deadline c env (s\<lparr>tick := tick s + 1\<rparr>))\<lparr>tick := tick s + 3\<rparr>))"
    if "config s = Some c" "14 \<le> ReadSize c" "spec_violation (client s) ba bb"
    using receive_first_violation [OF that(1,2)] that(3) by (simp only: violation_spec)
  from a b d e f show ?thesis
    by blast
qed

theorem C5_protocol_violation_exit_witness:
  "config server_socket = Some ((Handle_config zero_Config)\<lparr>CloseHandler := True\<rparr>) \<and>
   14 \<le> ReadSize ((Handle_config zero_Config)\<lparr>CloseHandler := True\<rparr>) \<and>
   spec_violation (client server_socket) 0x81 0x02 \<and>
   receive 10 (\<lambda>d. True) calm_env [([0x81, 0x02, 0x68, 0x69], NoErr)] server_socket =
     Some (Close calm_env 1002 (server_socket\<lparr>tick := 3\<rparr>)) \<and>
   Close calm_env 1002 (server_socket\<lparr>tick := 3\<rparr>) =
     Return (server_socket\<lparr>connected := False, closing := True, tick := 5,
        trace := [SetClosing, CloseHandlerCall 1002, WriteTo [[0x88, 2], [3, 234]] True,
                  SetDisconnected, ConnClose]\<rparr>)"
proof -
  have pre: "config server_socket = Some ((Handle_config zero_Config)\<lparr>CloseHandler := True\<rparr>)"
    "14 \<le> ReadSize ((Handle_config zero_Config)\<lparr>CloseHandler := True\<rparr>)"
    by (simp_all add: server_socket_def Handle_config_def zero_Config_def cval_def Let_def)
  have v: "spec_violation (client server_socket) 0x81 0x02"
    by code_simp
  have s: "(read_deadline ((Handle_config zero_Config)\<lparr>CloseHandler := True\<rparr>) calm_env
             (server_socket\<lparr>tick := tick server_socket + 1\<rparr>))\<lparr>tick := tick server_socket + 3\<rparr> =
           server_socket\<lparr>tick := 3\<rparr>"
    by (simp add: read_deadline_def Let_def calm_env_def server_socket_def Second_def)
  have cl: "Close calm_env 1002 (server_socket\<lparr>tick := 3\<rparr>) =
     Return (server_socket\<lparr>connected := False, closing := True, tick := 5,
        trace := [SetClosing, CloseHandlerCall 1002, WriteTo [[0x88, 2], [3, 234]] True,
                  SetDisconnected, ConnClose]\<rparr>)"
    by code_simp
  have n10: "Suc 9 = (10::nat)"
    by simp
  have "receive (Suc 9) (\<lambda>d. True) calm_env [([0x81, 0x02, 0x68, 0x69], NoErr)] server_socket =
     Some (Close calm_env 1002
       ((read_deadline ((Handle_config zero_Config)\<lparr>CloseHandler := True\<rparr>) calm_env
             (server_socket\<lparr>tick := tick server_socket + 1\<rparr>))\<lparr>tick := tick server_socket + 3\<rparr>))"
    using C5_protocol_violation_exit [where s = server_socket
      and c = "(Handle_config zero_Config)\<lparr>CloseHandler := True\<rparr>" and n = 9
      and u = "\<lambda>d. True" and env = calm_env and ba = "0x81" and bb = "0x02"
      and rest = "[0x68, 0x69]" and err = NoErr and reads = "[]",
      THEN conjunct2, THEN conjunct2, THEN conjunct2]
      pre v
    by blast
  then have "receive 10 (\<lambda>d. True) calm_env [([0x81, 0x02, 0x68, 0x69], NoErr)] server_socket =
     Some (Close calm_env 1002 (server_socket\<lparr>tick := 3\<rparr>))"
    by (simp only: s n10)
  with pre v cl show ?thesis
    by (intro conjI)
qed

text \<open>
  Claim C5 as stated fails on a CLOSE frame of the peer that carries the code 1002:
  the header \<^verbatim>\<open>0x88 0x82\<close> (FIN, CLOSE, masked, two bytes) violates nothing on a
  server, and \<^verbatim>\<open>receive\<close> leaves the loop and calls \<^verbatim>\<open>Close(1002)\<close> (lines 588 to
  592 take the code of the peer).
\<close>

theorem C5_peer_close_code_counterexample:
  "\<not> spec_violation (client server_socket) 0x88 0x82 \<and>
   receive 10 (\<lambda>d. True) calm_env [([0x88, 0x82, 1, 2, 3, 4, 2, 0xE8], NoErr)] server_socket =
     Some (Close calm_env 1002 (server_socket\<lparr>tick := 3\<rparr>)) \<and>
   Close calm_env 1002 (server_socket\<lparr>tick := 3\<rparr>) =
     Return (server_socket\<lparr>connected := False, closing := True, tick := 5,
        trace := [SetClosing, CloseHandlerCall 1002, WriteTo [[0x88, 2], [3, 234]] True,
                  SetDisconnected, ConnClose]\<rparr>)"
  by code_simp




end
